theory Spec2Isabelle
  imports Complex_Main "HOL-Library.Log_Nat"
begin

section \<open>The netlist of \<^verbatim>\<open>circuit.js\<close>\<close>

text \<open>
  A circuit \<^verbatim>\<open>C\<close> is a JavaScript array of gates; a gate is the array
  \<^verbatim>\<open>[name, ...args]\<close>. A wire is the index of a gate in \<^verbatim>\<open>C\<close>. The
  compressor can leave its locals \<^verbatim>\<open>s\<close> and \<^verbatim>\<open>c\<close> unassigned and store them
  all the same, so a slot that holds a wire can also hold \<^verbatim>\<open>undefined\<close>:
  \<open>Some k\<close> is the index \<open>k\<close>, \<open>None\<close> is \<^verbatim>\<open>undefined\<close>.
\<close>

type_synonym wire = "nat option"

datatype gate = Gate (name: string) (args: "wire list")

type_synonym netlist = "gate list"

text \<open>The \<^verbatim>\<open>length\<close> of the array \<^verbatim>\<open>[name, ...args]\<close>.\<close>

definition glength :: "gate \<Rightarrow> nat" where
  "glength g = 1 + length (args g)"

subsection \<open>Cost metrics\<close>

definition count_xaig :: "netlist \<Rightarrow> nat" where
  "count_xaig C = length (filter (\<lambda>g. glength g \<ge> 3) C)"

definition count_aig :: "netlist \<Rightarrow> nat" where
  "count_aig C =
     foldl (\<lambda>sum g. sum + (if name g = ''xor'' then 3 else 1)) 0
       (filter (\<lambda>g. glength g \<ge> 3) C)"

subsection \<open>Gate construction\<close>

text \<open>\<^verbatim>\<open>gate\<close> pushes onto \<^verbatim>\<open>C\<close> and returns \<^verbatim>\<open>C.length - 1\<close>; the model
  returns the grown netlist with the index.\<close>

definition gate :: "netlist \<Rightarrow> string \<Rightarrow> wire list \<Rightarrow> netlist \<times> nat" where
  "gate C nm ws = (let C' = C @ [Gate nm ws] in (C', length C' - 1))"

definition halfadder :: "netlist \<Rightarrow> wire \<Rightarrow> wire \<Rightarrow> netlist \<times> nat \<times> nat" where
  "halfadder C x y =
     (let (C1, s) = gate C ''xor'' [x, y];
          (C2, c) = gate C1 ''and'' [x, y]
      in (C2, s, c))"

definition fulladder :: "netlist \<Rightarrow> wire \<Rightarrow> wire \<Rightarrow> wire \<Rightarrow> netlist \<times> nat \<times> nat" where
  "fulladder C x y z =
     (let (C1, s1, c1) = halfadder C x y;
          (C2, s2, c2) = halfadder C1 (Some s1) z;
          (C3, c) = gate C2 ''or'' [Some c1, Some c2]
      in (C3, s2, c))"

subsection \<open>The compressor\<close>

text \<open>
  One pass of the \<^verbatim>\<open>while\<close> body for a head column \<open>col\<close> that does not hold
  exactly one wire. With three or more wires it is a full adder on the first three,
  with two a half adder; with none, neither branch runs and \<^verbatim>\<open>s\<close>, \<^verbatim>\<open>c\<close> stay
  \<^verbatim>\<open>undefined\<close>. The sum is pushed on the head column, the carry on the next
  column, which is created when the head column is the last one.

  The columns are taken by value, each an array of its own, as the columns are that
  \<open>adder\<close> and \<open>multiplier\<close> build. (The source works in place on the arrays it is
  given: \<open>popcount\<close> hands over the array of its caller as the only column, and that
  array is spliced as well. What becomes of it is not part of this model.)
\<close>

definition reduce :: "netlist \<Rightarrow> wire list \<Rightarrow> wire list list \<Rightarrow> netlist \<times> wire list list" where
  "reduce C col rest =
     (let (C', col', s, c) =
            (if length col \<ge> 3 then
               (let (C1, s, c) = fulladder C (col ! 0) (col ! 1) (col ! 2)
                in (C1, drop 3 col, Some s, Some c))
             else if length col = 2 then
               (let (C1, s, c) = halfadder C (col ! 0) (col ! 1)
                in (C1, drop 2 col, Some s, Some c))
             else (C, col, None, None));
          col'' = col' @ [s]
      in (case rest of
            [] \<Rightarrow> (C', [col'', [c]])
          | nxt # rest' \<Rightarrow> (C', col'' # (nxt @ [c]) # rest')))"

text \<open>The measure of the loop: an upper bound on the passes still to run, computed
  from the column sizes and the carries they will send upwards.\<close>

fun passes :: "nat list \<Rightarrow> nat \<Rightarrow> nat" where
  "passes [] c = 3 * c"
| "passes (k # ks) c =
     (k + c) div 2 + (if k + c = 0 then 2 else 1)
       + passes ks (if k + c = 0 then 1 else (k + c) div 2)"

lemma passes_shift: "passes (k # ks) c = passes ((k + c) # ks) 0"
  by simp

lemma passes_carry_chain: "0 < c \<Longrightarrow> passes [c] 0 \<le> passes [] c"
  by simp

lemma gate_eq: "gate C nm ws = (C @ [Gate nm ws], length C)"
  by (simp add: gate_def Let_def)

lemma halfadder_eq:
  "halfadder C x y =
     (C @ [Gate ''xor'' [x, y], Gate ''and'' [x, y]], length C, Suc (length C))"
  by (simp add: halfadder_def gate_eq)

lemma fulladder_eq:
  "fulladder C x y z =
     (C @ [Gate ''xor'' [x, y], Gate ''and'' [x, y],
           Gate ''xor'' [Some (length C), z], Gate ''and'' [Some (length C), z],
           Gate ''or'' [Some (Suc (length C)), Some (length C + 3)]],
      length C + 2, length C + 4)"
  by (simp add: fulladder_def halfadder_eq gate_eq numeral_eq_Suc)

definition carry_into :: "wire \<Rightarrow> wire list list \<Rightarrow> wire list list" where
  "carry_into c rest = (case rest of [] \<Rightarrow> [[c]] | nxt # rest' \<Rightarrow> (nxt @ [c]) # rest')"

lemma reduce_full:
  "3 \<le> length col \<Longrightarrow>
   reduce C col rest =
     (fst (fulladder C (col ! 0) (col ! 1) (col ! 2)),
      (drop 3 col @ [Some (length C + 2)]) # carry_into (Some (length C + 4)) rest)"
  by (simp add: reduce_def fulladder_eq carry_into_def split: list.splits)

lemma reduce_half:
  "length col = 2 \<Longrightarrow>
   reduce C col rest =
     (fst (halfadder C (col ! 0) (col ! 1)),
      (drop 2 col @ [Some (length C)]) # carry_into (Some (Suc (length C))) rest)"
  by (simp add: reduce_def halfadder_eq carry_into_def split: list.splits)

lemma reduce_empty:
  "col = [] \<Longrightarrow> reduce C col rest = (C, [None] # carry_into None rest)"
  by (simp add: reduce_def carry_into_def Let_def split: list.splits)

lemma length_cases: "length col \<noteq> 1 \<Longrightarrow> 3 \<le> length col \<or> length col = 2 \<or> col = []"
proof -
  assume "length col \<noteq> 1"
  then have "3 \<le> length col \<or> length col = 2 \<or> length col = 0" by linarith
  then show ?thesis by simp
qed

lemma carry_into_sizes:
  "map length (carry_into c rest) = (case rest of [] \<Rightarrow> [1] | nxt # rest' \<Rightarrow> Suc (length nxt) # map length rest')"
  by (simp add: carry_into_def split: list.splits)

lemma passes_carry_into: "passes (map length (carry_into c rest)) k \<le> passes (map length rest) (Suc k)"
proof (cases rest)
  case Nil
  then show ?thesis by (simp add: carry_into_def)
next
  case (Cons nxt rest')
  then show ?thesis by (simp add: carry_into_def)
qed

lemma passes_reduce:
  assumes "length col \<noteq> 1"
  shows "passes (map length (snd (reduce C col rest))) 0 < passes (map length (col # rest)) 0"
proof -
  define ks where "ks = map length rest"
  define ks' where "ks' = map length (carry_into (Some (length C + 4)) rest)"
  define ks'' where "ks'' = map length (carry_into (Some (Suc (length C))) rest)"
  define ks3 where "ks3 = map length (carry_into None rest)"
  consider "3 \<le> length col" | "length col = 2" | "col = []"
    using length_cases [OF assms] by blast
  then show ?thesis
  proof cases
    case 1
    define k where "k = length col"
    have a: "(k - 2) div 2 = k div 2 - 1" "k div 2 \<ge> 1" "k - 2 \<noteq> 0"
      using 1 unfolding k_def by presburger+
    have "passes ks' ((k - 2) div 2) \<le> passes ks (Suc ((k - 2) div 2))"
      unfolding ks'_def ks_def by (rule passes_carry_into)
    also have "Suc ((k - 2) div 2) = k div 2" using a by simp
    finally have b: "passes ks' ((k - 2) div 2) \<le> passes ks (k div 2)" .
    have "passes ((k - 2) # ks') 0 < passes (k # ks) 0"
      using a b by simp
    moreover have "length (drop 3 col @ [Some (length C + 2)]) = k - 2"
      using 1 by (simp add: k_def)
    ultimately show ?thesis
      using 1 by (simp only: reduce_full snd_conv list.map ks'_def ks_def k_def)
  next
    case 2
    have "passes ks'' 0 \<le> passes ks (Suc 0)"
      unfolding ks''_def ks_def by (rule passes_carry_into)
    then have "passes (1 # ks'') 0 < passes (2 # ks) 0"
      by simp
    moreover have "length (drop 2 col @ [Some (length C)]) = 1"
      using 2 by simp
    ultimately show ?thesis
      using 2 by (simp only: reduce_half snd_conv list.map ks''_def ks_def)
  next
    case 3
    have "passes ks3 0 \<le> passes ks (Suc 0)"
      unfolding ks3_def ks_def by (rule passes_carry_into)
    then have "passes (1 # ks3) 0 < passes (0 # ks) 0"
      by simp
    then show ?thesis
      using 3 by (simp add: reduce_empty ks3_def ks_def)
  qed
qed

function compress_loop :: "netlist \<Rightarrow> wire list list \<Rightarrow> wire list \<Rightarrow> netlist \<times> wire list" where
  "compress_loop C [] outputs = (C, outputs)"
| "compress_loop C (col # rest) outputs =
     (if length col = 1 then compress_loop C rest (outputs @ [col ! 0])
      else compress_loop (fst (reduce C col rest)) (snd (reduce C col rest)) outputs)"
  by pat_completeness auto
termination
proof (relation "measure (\<lambda>(C, bits, outputs). passes (map length bits) 0)")
  show "wf (measure (\<lambda>(C, bits, outputs). passes (map length bits) 0))"
    by simp
next
  fix C :: netlist and col :: "wire list" and rest :: "wire list list" and outputs :: "wire list"
  assume "length col = 1"
  then show "((C, rest, outputs @ [col ! 0]), (C, col # rest, outputs))
      \<in> measure (\<lambda>(C, bits, outputs). passes (map length bits) 0)"
    by simp
next
  fix C :: netlist and col :: "wire list" and rest :: "wire list list" and outputs :: "wire list"
  assume "length col \<noteq> 1"
  then show "((fst (reduce C col rest), snd (reduce C col rest), outputs), (C, col # rest, outputs))
      \<in> measure (\<lambda>(C, bits, outputs). passes (map length bits) 0)"
    using passes_reduce [of col C rest] by simp
qed

definition compress :: "netlist \<Rightarrow> wire list list \<Rightarrow> netlist \<times> wire list" where
  "compress C bits = compress_loop C bits []"

subsection \<open>Inputs\<close>

text \<open>The decimal digits of a number, as the template literal
  \<^verbatim>\<open>`${name}${i}`\<close> prints an index.\<close>

fun string_of_nat :: "nat \<Rightarrow> string" where
  "string_of_nat n =
     (if n < 10 then [char_of (48 + n)]
      else string_of_nat (n div 10) @ [char_of (48 + n mod 10)])"

declare string_of_nat.simps [simp del]

fun inputs_from :: "netlist \<Rightarrow> string \<Rightarrow> nat list \<Rightarrow> netlist \<times> nat list" where
  "inputs_from C nm [] = (C, [])"
| "inputs_from C nm (i # is) =
     (let (C1, w) = gate C (nm @ string_of_nat i) [];
          (C2, ws) = inputs_from C1 nm is
      in (C2, w # ws))"

definition inputs :: "netlist \<Rightarrow> string \<Rightarrow> nat \<Rightarrow> netlist \<times> nat list" where
  "inputs C nm n = inputs_from C nm [0..<n]"

subsection \<open>Adder and popcount\<close>

datatype error = LengthMismatch | TypeError

text \<open>Every operator returns the netlist as it stands when the call ends, also when the
  call ends by an exception, with the exception or the output wires.\<close>

definition adder :: "netlist \<Rightarrow> wire list \<Rightarrow> wire list \<Rightarrow> netlist \<times> (error + wire list)" where
  "adder C bits_a bits_b =
     (if length bits_a \<noteq> length bits_b then (C, Inl LengthMismatch)
      else (let land = map (\<lambda>i. [bits_a ! i, bits_b ! i]) [0..<length bits_a];
                (C', outputs) = compress C land
            in (C', Inr outputs)))"

definition popcount :: "netlist \<Rightarrow> wire list \<Rightarrow> netlist \<times> wire list" where
  "popcount C bits = compress C [bits]"

subsection \<open>Multiplier\<close>

text \<open>\<^verbatim>\<open>C[a][0]\<close>: the tag of the gate a wire names. Reading \<^verbatim>\<open>[0]\<close> of
  \<^verbatim>\<open>undefined\<close>, which is what \<^verbatim>\<open>C[a]\<close> is for an index out of range and for
  \<^verbatim>\<open>C[undefined]\<close>, throws a TypeError.\<close>

definition tag_of :: "netlist \<Rightarrow> wire \<Rightarrow> string option" where
  "tag_of C w = (case w of None \<Rightarrow> None
                 | Some k \<Rightarrow> if k < length C then Some (name (C ! k)) else None)"

record mstate =
  net :: netlist
  abits :: "wire list"
  bbits :: "wire list"
  land :: "wire list list"

text \<open>The body of the inner loop for the pair \<open>(i, d - i)\<close>. The tag of \<^verbatim>\<open>b\<close> is
  read after the duplicate of \<^verbatim>\<open>a\<close> has been pushed.\<close>

definition mul_cell :: "nat \<Rightarrow> nat \<Rightarrow> mstate \<Rightarrow> (error \<times> netlist) + mstate" where
  "mul_cell d i st =
     (let j = d - i;
          a = abits st ! i;
          b = bbits st ! j
      in case tag_of (net st) a of
           None \<Rightarrow> Inl (TypeError, net st)
         | Some ta \<Rightarrow>
             (let (C1, new_a) = gate (net st) ta [a]
              in case tag_of C1 b of
                   None \<Rightarrow> Inl (TypeError, C1)
                 | Some tb \<Rightarrow>
                     (let (C2, new_b) = gate C1 tb [b];
                          (C3, p) = gate C2 ''and'' [Some new_a, Some new_b]
                      in Inr \<lparr>net = C3,
                              abits = (abits st)[i := Some new_a],
                              bbits = (bbits st)[j := Some new_b],
                              land = (land st)[d := land st ! d @ [Some p]]\<rparr>)))"

fun mul_row :: "nat \<Rightarrow> nat list \<Rightarrow> mstate \<Rightarrow> (error \<times> netlist) + mstate" where
  "mul_row d [] st = Inr st"
| "mul_row d (i # is) st =
     (case mul_cell d i st of Inl e \<Rightarrow> Inl e | Inr st' \<Rightarrow> mul_row d is st')"

text \<open>\<^verbatim>\<open>start_i = Math.max(0, d - nb + 1)\<close> and \<^verbatim>\<open>end_i = Math.min(na, d + 1)\<close>;
  on naturals the truncated subtraction \<open>d + 1 - nb\<close> is that maximum.\<close>

fun mul_diags :: "nat \<Rightarrow> nat \<Rightarrow> nat list \<Rightarrow> mstate \<Rightarrow> (error \<times> netlist) + mstate" where
  "mul_diags na nb [] st = Inr st"
| "mul_diags na nb (d # ds) st =
     (case mul_row d [d + 1 - nb ..< min na (d + 1)] st of
        Inl e \<Rightarrow> Inl e
      | Inr st' \<Rightarrow> mul_diags na nb ds st')"

text \<open>\<^verbatim>\<open>Array.from({ length: na + nb - 1 }, ...)\<close> is empty for the length \<open>-1\<close>,
  as the truncated subtraction gives.\<close>

definition multiplier :: "netlist \<Rightarrow> wire list \<Rightarrow> wire list \<Rightarrow> netlist \<times> (error + wire list)" where
  "multiplier C bits_a bits_b =
     (let na = length bits_a;
          nb = length bits_b;
          st0 = \<lparr>net = C, abits = bits_a, bbits = bits_b,
                 land = replicate (na + nb - 1) []\<rparr>
      in case mul_diags na nb [0..<na + nb - 1] st0 of
           Inl (e, C') \<Rightarrow> (C', Inl e)
         | Inr st \<Rightarrow> (let (C', outputs) = compress (net st) (land st) in (C', Inr outputs)))"

subsection \<open>The multiplier on a store of arrays\<close>

text \<open>
  In the source \<^verbatim>\<open>bits_a\<close> and \<^verbatim>\<open>bits_b\<close> are references to arrays the caller
  owns, and the loop assigns to \<^verbatim>\<open>bits_a[i]\<close> and \<^verbatim>\<open>bits_b[j]\<close>. To see which
  arrays these assignments change, the arrays of wires live in a store here: a list of
  arrays, an address being an index into it, and a new array taking the next free
  address. \<^verbatim>\<open>land\<close> and its columns are created inside the call and nothing the
  caller holds refers to them; they stay values, as does the netlist, which \<open>gate\<close>
  only appends to.
\<close>

type_synonym store = "wire list list"

record hstate =
  heap :: store
  hnet :: netlist
  hland :: "wire list list"

text \<open>The body of the inner loop, \<open>qa\<close> and \<open>qb\<close> being the addresses the variables
  \<^verbatim>\<open>bits_a\<close> and \<^verbatim>\<open>bits_b\<close> hold. Both entries are read first; each assignment is
  made when its \<open>gate\<close> call has returned.\<close>

definition mul_cell_h ::
  "nat \<Rightarrow> nat \<Rightarrow> nat \<Rightarrow> nat \<Rightarrow> hstate \<Rightarrow> (error \<times> store \<times> netlist) + hstate" where
  "mul_cell_h qa qb d i hs =
     (let j = d - i;
          a = heap hs ! qa ! i;
          b = heap hs ! qb ! j
      in case tag_of (hnet hs) a of
           None \<Rightarrow> Inl (TypeError, heap hs, hnet hs)
         | Some ta \<Rightarrow>
             (let (C1, new_a) = gate (hnet hs) ta [a];
                  h1 = (heap hs)[qa := (heap hs ! qa)[i := Some new_a]]
              in case tag_of C1 b of
                   None \<Rightarrow> Inl (TypeError, h1, C1)
                 | Some tb \<Rightarrow>
                     (let (C2, new_b) = gate C1 tb [b];
                          h2 = h1[qb := (h1 ! qb)[j := Some new_b]];
                          (C3, p) = gate C2 ''and'' [Some new_a, Some new_b]
                      in Inr \<lparr>heap = h2, hnet = C3,
                              hland = (hland hs)[d := hland hs ! d @ [Some p]]\<rparr>)))"

fun mul_row_h ::
  "nat \<Rightarrow> nat \<Rightarrow> nat \<Rightarrow> nat list \<Rightarrow> hstate \<Rightarrow> (error \<times> store \<times> netlist) + hstate" where
  "mul_row_h qa qb d [] hs = Inr hs"
| "mul_row_h qa qb d (i # is) hs =
     (case mul_cell_h qa qb d i hs of Inl e \<Rightarrow> Inl e | Inr hs' \<Rightarrow> mul_row_h qa qb d is hs')"

fun mul_diags_h ::
  "nat \<Rightarrow> nat \<Rightarrow> nat \<Rightarrow> nat \<Rightarrow> nat list \<Rightarrow> hstate \<Rightarrow> (error \<times> store \<times> netlist) + hstate" where
  "mul_diags_h qa qb na nb [] hs = Inr hs"
| "mul_diags_h qa qb na nb (d # ds) hs =
     (case mul_row_h qa qb d [d + 1 - nb ..< min na (d + 1)] hs of
        Inl e \<Rightarrow> Inl e
      | Inr hs' \<Rightarrow> mul_diags_h qa qb na nb ds hs')"

text \<open>The call \<^verbatim>\<open>multiplier(C, bits_a, bits_b)\<close> with the arrays at the addresses
  \<open>pa\<close> and \<open>pb\<close> of the store \<open>h\<close>. The two spreads \<^verbatim>\<open>[...bits_a]\<close> and
  \<^verbatim>\<open>[...bits_b]\<close> allocate the copies at the next two addresses, and the variables
  are rebound to these.\<close>

definition multiplier_h ::
  "store \<Rightarrow> netlist \<Rightarrow> nat \<Rightarrow> nat \<Rightarrow> store \<times> netlist \<times> (error + wire list)" where
  "multiplier_h h C pa pb =
     (let na = length (h ! pa);
          nb = length (h ! pb);
          land0 = replicate (na + nb - 1) [];
          qa = length h;
          h1 = h @ [h ! pa];
          qb = length h1;
          h2 = h1 @ [h1 ! pb]
      in case mul_diags_h qa qb na nb [0..<na + nb - 1] \<lparr>heap = h2, hnet = C, hland = land0\<rparr> of
           Inl (e, h', C') \<Rightarrow> (h', C', Inl e)
         | Inr hs \<Rightarrow>
             (let (C', outputs) = compress (hnet hs) (hland hs) in (heap hs, C', Inr outputs)))"

section \<open>The meaning of a netlist\<close>

text \<open>
  The repository builds netlists and never evaluates them, so the value of a wire is
  defined here, gate by gate in index order, from the gate's own shape: a gate without
  operands is a primary input and reads the assignment \<open>env\<close> at its index; a gate with
  one operand is a fan-out duplicate and carries the value of its source; a gate with
  two operands is the Boolean operation its tag names. The value of a gate is computed
  from the values of the gates before it only: an operand that is not an earlier index
  reads as \<open>False\<close>, and so does \<^verbatim>\<open>undefined\<close>, which is falsy in JavaScript. The
  shapes the operators never build, two operands under another tag and three operands
  or more, have the value \<open>False\<close>.
\<close>

definition wv :: "bool list \<Rightarrow> wire \<Rightarrow> bool" where
  "wv vs w = (case w of None \<Rightarrow> False | Some k \<Rightarrow> k < length vs \<and> vs ! k)"

definition gate_val :: "(nat \<Rightarrow> bool) \<Rightarrow> bool list \<Rightarrow> gate \<Rightarrow> bool" where
  "gate_val env vs g =
     (case args g of
        [] \<Rightarrow> env (length vs)
      | [a] \<Rightarrow> wv vs a
      | [a, b] \<Rightarrow>
          (if name g = ''and'' then wv vs a \<and> wv vs b
           else if name g = ''or'' then wv vs a \<or> wv vs b
           else if name g = ''xor'' then wv vs a \<noteq> wv vs b
           else False)
      | _ \<Rightarrow> False)"

definition wire_values :: "(nat \<Rightarrow> bool) \<Rightarrow> netlist \<Rightarrow> bool list" where
  "wire_values env C = foldl (\<lambda>vs g. vs @ [gate_val env vs g]) [] C"

definition wire_value :: "(nat \<Rightarrow> bool) \<Rightarrow> netlist \<Rightarrow> wire \<Rightarrow> bool" where
  "wire_value env C w = wv (wire_values env C) w"

text \<open>The number a list of bits is, least significant bit first.\<close>

fun bits_value :: "bool list \<Rightarrow> nat" where
  "bits_value [] = 0"
| "bits_value (b # bs) = of_bool b + 2 * bits_value bs"

definition out_value :: "(nat \<Rightarrow> bool) \<Rightarrow> netlist \<Rightarrow> wire list \<Rightarrow> nat" where
  "out_value env C outs = bits_value (map (wire_value env C) outs)"

text \<open>The number a list of columns stands for: a wire of column \<open>w\<close> counts \<open>2 ^ w\<close>
  when it is set.\<close>

fun cols_value :: "(wire \<Rightarrow> bool) \<Rightarrow> wire list list \<Rightarrow> nat" where
  "cols_value f [] = 0"
| "cols_value f (col # rest) = (\<Sum>w\<leftarrow>col. of_bool (f w)) + 2 * cols_value f rest"

text \<open>A wire of the netlist: an index below its length.\<close>

definition wire_ok :: "netlist \<Rightarrow> wire \<Rightarrow> bool" where
  "wire_ok C w = (case w of None \<Rightarrow> False | Some k \<Rightarrow> k < length C)"

section \<open>Properties of netlists\<close>

subsection \<open>Acyclic netlists\<close>

text \<open>Every operand of the gate at index \<open>i\<close> is an index below \<open>i\<close>.\<close>

definition operands_below :: "nat \<Rightarrow> gate \<Rightarrow> bool" where
  "operands_below i g = list_all (\<lambda>w. case w of None \<Rightarrow> False | Some k \<Rightarrow> k < i) (args g)"

definition acyclic_netlist :: "netlist \<Rightarrow> bool" where
  "acyclic_netlist C = list_all (\<lambda>i. operands_below i (C ! i)) [0..<length C]"

subsection \<open>Sequences of calls\<close>

text \<open>A call of one of the four operators that build gates, with its arguments.\<close>

datatype call =
    Inputs string nat
  | Adder "wire list" "wire list"
  | Popcount "wire list"
  | Multiplier "wire list" "wire list"

fun run_call :: "netlist \<Rightarrow> call \<Rightarrow> netlist" where
  "run_call C (Inputs nm n) = fst (inputs C nm n)"
| "run_call C (Adder bits_a bits_b) = fst (adder C bits_a bits_b)"
| "run_call C (Popcount bits) = fst (popcount C bits)"
| "run_call C (Multiplier bits_a bits_b) = fst (multiplier C bits_a bits_b)"

text \<open>The wires a call is given are wires of the netlist it is given.\<close>

fun call_ok :: "netlist \<Rightarrow> call \<Rightarrow> bool" where
  "call_ok C (Inputs nm n) = True"
| "call_ok C (Adder bits_a bits_b) = (list_all (wire_ok C) bits_a \<and> list_all (wire_ok C) bits_b)"
| "call_ok C (Popcount bits) = list_all (wire_ok C) bits"
| "call_ok C (Multiplier bits_a bits_b) = (list_all (wire_ok C) bits_a \<and> list_all (wire_ok C) bits_b)"

fun run_calls :: "netlist \<Rightarrow> call list \<Rightarrow> netlist" where
  "run_calls C [] = C"
| "run_calls C (c # cs) = run_calls (run_call C c) cs"

fun calls_ok :: "netlist \<Rightarrow> call list \<Rightarrow> bool" where
  "calls_ok C [] = True"
| "calls_ok C (c # cs) = (call_ok C c \<and> calls_ok (run_call C c) cs)"

section \<open>Cost metrics\<close>

lemma count_aig_foldl:
  "foldl (\<lambda>sum g. sum + (if name g = ''xor'' then 3 else 1)) k gs =
     k + 3 * length (filter (\<lambda>g. name g = ''xor'') gs) + length (filter (\<lambda>g. name g \<noteq> ''xor'') gs)"
  by (induction gs arbitrary: k) simp_all

lemma count_aig_eq:
  "count_aig C =
     3 * length (filter (\<lambda>g. 3 \<le> glength g \<and> name g = ''xor'') C)
       + length (filter (\<lambda>g. 3 \<le> glength g \<and> name g \<noteq> ''xor'') C)"
  by (simp add: count_aig_def count_aig_foldl conj_commute)

lemma count_xaig_split:
  "count_xaig C =
     length (filter (\<lambda>g. 3 \<le> glength g \<and> name g = ''xor'') C)
       + length (filter (\<lambda>g. 3 \<le> glength g \<and> name g \<noteq> ''xor'') C)"
  unfolding count_xaig_def by (induction C) simp_all

text \<open>
  C7. In a netlist whose gates have at most two operands (inputs, fan-out duplicates and
  operations), \<open>count_xaig\<close> is the number of gates with two operands, and
  \<open>count_aig\<close> counts 3 for each two-operand gate tagged \<^verbatim>\<open>xor\<close> and 1 for each other
  two-operand gate; gates with no or one operand add nothing to either. Hence
  \<open>count_xaig C \<le> count_aig C\<close>, with equality exactly when no two-operand gate is tagged
  \<^verbatim>\<open>xor\<close>.
\<close>

theorem cost_metrics:
  assumes "\<forall>g \<in> set C. length (args g) \<le> 2"
  shows "count_xaig C = length (filter (\<lambda>g. length (args g) = 2) C)
       \<and> count_aig C =
           3 * length (filter (\<lambda>g. length (args g) = 2 \<and> name g = ''xor'') C)
             + length (filter (\<lambda>g. length (args g) = 2 \<and> name g \<noteq> ''xor'') C)
       \<and> count_xaig C \<le> count_aig C
       \<and> (count_aig C = count_xaig C
            \<longleftrightarrow> \<not> (\<exists>g \<in> set C. length (args g) = 2 \<and> name g = ''xor''))"
proof -
  have two: "\<And>g. g \<in> set C \<Longrightarrow> (3 \<le> glength g) = (length (args g) = 2)"
    using assms by (auto simp: glength_def)
  have f1: "filter (\<lambda>g. 3 \<le> glength g) C = filter (\<lambda>g. length (args g) = 2) C"
    by (rule filter_cong) (simp_all add: two)
  have f2: "filter (\<lambda>g. 3 \<le> glength g \<and> name g = ''xor'') C
          = filter (\<lambda>g. length (args g) = 2 \<and> name g = ''xor'') C"
    by (rule filter_cong) (simp_all add: two)
  have f3: "filter (\<lambda>g. 3 \<le> glength g \<and> name g \<noteq> ''xor'') C
          = filter (\<lambda>g. length (args g) = 2 \<and> name g \<noteq> ''xor'') C"
    by (rule filter_cong) (simp_all add: two)
  have a: "count_xaig C = length (filter (\<lambda>g. length (args g) = 2) C)"
    by (simp add: count_xaig_def f1)
  have b: "count_aig C =
           3 * length (filter (\<lambda>g. length (args g) = 2 \<and> name g = ''xor'') C)
             + length (filter (\<lambda>g. length (args g) = 2 \<and> name g \<noteq> ''xor'') C)"
    by (simp only: count_aig_eq f2 f3)
  have c: "count_xaig C =
           length (filter (\<lambda>g. length (args g) = 2 \<and> name g = ''xor'') C)
             + length (filter (\<lambda>g. length (args g) = 2 \<and> name g \<noteq> ''xor'') C)"
    by (simp only: count_xaig_split f2 f3)
  have d: "(length (filter (\<lambda>g. length (args g) = 2 \<and> name g = ''xor'') C) = 0)
           = (\<not> (\<exists>g \<in> set C. length (args g) = 2 \<and> name g = ''xor''))"
    by (auto simp: filter_empty_conv)
  have e: "count_xaig C \<le> count_aig C" using b c by linarith
  have f: "(count_aig C = count_xaig C)
           = (\<not> (\<exists>g \<in> set C. length (args g) = 2 \<and> name g = ''xor''))"
    using b c d by linarith
  show ?thesis using a b e f by blast
qed

theorem cost_metrics_witness:
  "list_all (\<lambda>g. length (args g) \<le> 2)
      [Gate ''a0'' [], Gate ''a1'' [], Gate ''a0'' [Some 0],
       Gate ''xor'' [Some 2, Some 1], Gate ''and'' [Some 2, Some 1]]
   \<and> count_xaig [Gate ''a0'' [], Gate ''a1'' [], Gate ''a0'' [Some 0],
               Gate ''xor'' [Some 2, Some 1], Gate ''and'' [Some 2, Some 1]] = 2
   \<and> count_aig [Gate ''a0'' [], Gate ''a1'' [], Gate ''a0'' [Some 0],
               Gate ''xor'' [Some 2, Some 1], Gate ''and'' [Some 2, Some 1]] = 4"
  using cost_metrics [of "[Gate ''a0'' [], Gate ''a1'' [], Gate ''a0'' [Some 0],
               Gate ''xor'' [Some 2, Some 1], Gate ''and'' [Some 2, Some 1]]"]
  by simp

section \<open>Values of wires\<close>

text \<open>A slot that does not dangle: \<^verbatim>\<open>undefined\<close> or an index of the netlist.\<close>

definition wire_in :: "netlist \<Rightarrow> wire \<Rightarrow> bool" where
  "wire_in C w = (case w of None \<Rightarrow> True | Some k \<Rightarrow> k < length C)"

lemma wire_ok_in: "wire_ok C w \<Longrightarrow> wire_in C w"
  by (simp add: wire_ok_def wire_in_def split: option.splits)

lemma wire_in_Some [simp]: "wire_in C (Some k) = (k < length C)"
  by (simp add: wire_in_def)

lemma wire_in_None [simp]: "wire_in C None"
  by (simp add: wire_in_def)

lemma wire_ok_Some [simp]: "wire_ok C (Some k) = (k < length C)"
  by (simp add: wire_ok_def)

lemma wire_ok_None [simp]: "\<not> wire_ok C None"
  by (simp add: wire_ok_def)

lemma wire_in_append: "wire_in C w \<Longrightarrow> wire_in (C @ D) w"
  by (simp add: wire_in_def split: option.splits)

lemma wire_ok_append: "wire_ok C w \<Longrightarrow> wire_ok (C @ D) w"
  by (simp add: wire_ok_def split: option.splits)

lemma wire_values_snoc:
  "wire_values env (C @ [g]) = wire_values env C @ [gate_val env (wire_values env C) g]"
  by (simp add: wire_values_def)

lemma wire_values_Nil [simp]: "wire_values env [] = []"
  by (simp add: wire_values_def)

lemma length_wire_values [simp]: "length (wire_values env C) = length C"
  by (induction C rule: rev_induct) (simp_all add: wire_values_snoc)

lemma wire_values_append_take: "take (length C) (wire_values env (C @ D)) = wire_values env C"
proof (induction D rule: rev_induct)
  case Nil
  then show ?case by simp
next
  case (snoc g D)
  have "wire_values env (C @ D @ [g]) = wire_values env (C @ D) @ [gate_val env (wire_values env (C @ D)) g]"
    using wire_values_snoc [of env "C @ D" g] by simp
  then show ?case using snoc by simp
qed

lemma wire_values_append_nth:
  assumes "k < length C"
  shows "wire_values env (C @ D) ! k = wire_values env C ! k"
proof -
  have "wire_values env C ! k = take (length C) (wire_values env (C @ D)) ! k"
    by (simp only: wire_values_append_take)
  also have "\<dots> = wire_values env (C @ D) ! k"
    using assms by simp
  finally show ?thesis by simp
qed

lemma wire_value_append: "wire_in C w \<Longrightarrow> wire_value env (C @ D) w = wire_value env C w"
  by (cases w) (simp_all add: wire_value_def wv_def wire_values_append_nth)

lemma wv_append: "wire_in C w \<Longrightarrow> length vs = length C \<Longrightarrow> wv (vs @ us) w = wv vs w"
  by (cases w) (simp_all add: wv_def nth_append)

lemma wire_value_new:
  "wire_value env (C @ g # D) (Some (length C)) = gate_val env (wire_values env C) g"
proof -
  have "wire_value env ((C @ [g]) @ D) (Some (length C)) = wire_value env (C @ [g]) (Some (length C))"
    by (rule wire_value_append) simp
  also have "\<dots> = gate_val env (wire_values env C) g"
    by (simp add: wire_value_def wv_def wire_values_snoc nth_append)
  finally show ?thesis by simp
qed

lemma gate_val_binary:
  "gate_val env vs (Gate ''xor'' [a, b]) = (wv vs a \<noteq> wv vs b)"
  "gate_val env vs (Gate ''and'' [a, b]) = (wv vs a \<and> wv vs b)"
  "gate_val env vs (Gate ''or'' [a, b]) = (wv vs a \<or> wv vs b)"
  by (simp_all add: gate_val_def)

lemma gate_val_dup: "gate_val env vs (Gate nm [a]) = wv vs a"
  by (simp add: gate_val_def)

lemma gate_val_input: "gate_val env vs (Gate nm []) = env (length vs)"
  by (simp add: gate_val_def)

text \<open>The value of the gate appended at position \<open>length C + length P\<close>, in terms of the
  values of the wires in the netlist before it.\<close>

lemma wire_value_at:
  "wire_value env (C @ P @ g # D) (Some (length C + length P))
     = gate_val env (wire_values env (C @ P)) g"
  using wire_value_new [of env "C @ P" g D] by simp

lemma wv_wire_values: "wv (wire_values env C) w = wire_value env C w"
  by (simp add: wire_value_def)

lemma halfadder_values:
  assumes "wire_in C x" "wire_in C y"
  shows "wire_value env (C @ Gate ''xor'' [x, y] # Gate ''and'' [x, y] # D) (Some (length C))
           = (wire_value env C x \<noteq> wire_value env C y)"
    and "wire_value env (C @ Gate ''xor'' [x, y] # Gate ''and'' [x, y] # D) (Some (Suc (length C)))
           = (wire_value env C x \<and> wire_value env C y)"
proof -
  show "wire_value env (C @ Gate ''xor'' [x, y] # Gate ''and'' [x, y] # D) (Some (length C))
           = (wire_value env C x \<noteq> wire_value env C y)"
    by (simp only: wire_value_new gate_val_binary wv_wire_values)
  have "wire_value env (C @ [Gate ''xor'' [x, y]] @ Gate ''and'' [x, y] # D)
          (Some (length C + length [Gate ''xor'' [x, y]]))
        = gate_val env (wire_values env (C @ [Gate ''xor'' [x, y]])) (Gate ''and'' [x, y])"
    by (rule wire_value_at)
  also have "\<dots> = (wire_value env (C @ [Gate ''xor'' [x, y]]) x
                     \<and> wire_value env (C @ [Gate ''xor'' [x, y]]) y)"
    by (simp only: gate_val_binary wv_wire_values)
  also have "\<dots> = (wire_value env C x \<and> wire_value env C y)"
    using assms by (simp only: wire_value_append)
  finally show "wire_value env (C @ Gate ''xor'' [x, y] # Gate ''and'' [x, y] # D) (Some (Suc (length C)))
           = (wire_value env C x \<and> wire_value env C y)"
    by simp
qed

lemma halfadder_sum:
  assumes "wire_in C x" "wire_in C y"
  shows "(of_bool (wire_value env (C @ Gate ''xor'' [x, y] # Gate ''and'' [x, y] # D) (Some (length C))) :: nat)
         + 2 * of_bool (wire_value env (C @ Gate ''xor'' [x, y] # Gate ''and'' [x, y] # D) (Some (Suc (length C))))
         = of_bool (wire_value env C x) + of_bool (wire_value env C y)"
  by (simp only: halfadder_values [OF assms]) (simp add: of_bool_def)

definition fa_gates :: "nat \<Rightarrow> wire \<Rightarrow> wire \<Rightarrow> wire \<Rightarrow> gate list" where
  "fa_gates n x y z =
     [Gate ''xor'' [x, y], Gate ''and'' [x, y],
      Gate ''xor'' [Some n, z], Gate ''and'' [Some n, z],
      Gate ''or'' [Some (Suc n), Some (n + 3)]]"

lemma fulladder_fa_gates:
  "fulladder C x y z = (C @ fa_gates (length C) x y z, length C + 2, length C + 4)"
  by (simp add: fulladder_eq fa_gates_def)

lemma fulladder_values:
  assumes "wire_in C x" "wire_in C y" "wire_in C z"
  shows "wire_value env (C @ fa_gates (length C) x y z @ D) (Some (length C + 2))
           = ((wire_value env C x \<noteq> wire_value env C y) \<noteq> wire_value env C z)"
    and "wire_value env (C @ fa_gates (length C) x y z @ D) (Some (length C + 4))
           = ((wire_value env C x \<and> wire_value env C y)
               \<or> ((wire_value env C x \<noteq> wire_value env C y) \<and> wire_value env C z))"
proof -
  let ?n = "length C"
  let ?h1 = "[Gate ''xor'' [x, y], Gate ''and'' [x, y]]"
  let ?h2 = "[Gate ''xor'' [Some ?n, z], Gate ''and'' [Some ?n, z]]"
  let ?or = "Gate ''or'' [Some (Suc ?n), Some (?n + 3)]"
  let ?C1 = "C @ ?h1"
  let ?C2 = "?C1 @ ?h2"
  have z1: "wire_in ?C1 z" using assms(3) by (rule wire_in_append)
  have n1: "wire_in ?C1 (Some ?n)" by simp
  have s1: "wire_value env ?C1 (Some ?n) = (wire_value env C x \<noteq> wire_value env C y)"
    using halfadder_values(1) [OF assms(1,2), of env "[]"] by simp
  have c1: "wire_value env ?C1 (Some (Suc ?n)) = (wire_value env C x \<and> wire_value env C y)"
    using halfadder_values(2) [OF assms(1,2), of env "[]"] by simp
  have zv: "wire_value env ?C1 z = wire_value env C z"
    using assms(3) by (rule wire_value_append)
  have s2: "wire_value env (?C2 @ E) (Some (?n + 2))
             = ((wire_value env C x \<noteq> wire_value env C y) \<noteq> wire_value env C z)" for E
    using halfadder_values(1) [OF n1 z1, of env E] by (simp add: s1 zv)
  have c2: "wire_value env (?C2 @ E) (Some (?n + 3))
             = ((wire_value env C x \<noteq> wire_value env C y) \<and> wire_value env C z)" for E
    using halfadder_values(2) [OF n1 z1, of env E] by (simp add: s1 zv numeral_3_eq_3)
  have c1': "wire_value env ?C2 (Some (Suc ?n)) = (wire_value env C x \<and> wire_value env C y)"
    using wire_value_append [of ?C1 "Some (Suc ?n)" env ?h2] c1 by simp
  have split: "C @ fa_gates ?n x y z @ D = ?C2 @ ?or # D"
    by (simp add: fa_gates_def)
  show "wire_value env (C @ fa_gates ?n x y z @ D) (Some (?n + 2))
           = ((wire_value env C x \<noteq> wire_value env C y) \<noteq> wire_value env C z)"
    unfolding split by (rule s2)
  have "wire_value env (?C2 @ ?or # D) (Some (length ?C2)) = gate_val env (wire_values env ?C2) ?or"
    by (rule wire_value_new)
  also have "\<dots> = (wire_value env ?C2 (Some (Suc ?n)) \<or> wire_value env ?C2 (Some (?n + 3)))"
    by (simp only: gate_val_binary wv_wire_values)
  also have "\<dots> = ((wire_value env C x \<and> wire_value env C y)
               \<or> ((wire_value env C x \<noteq> wire_value env C y) \<and> wire_value env C z))"
    using c2 [of "[]"] c1' by simp
  finally have r: "wire_value env (?C2 @ ?or # D) (Some (length ?C2))
           = ((wire_value env C x \<and> wire_value env C y)
               \<or> ((wire_value env C x \<noteq> wire_value env C y) \<and> wire_value env C z))" .
  have len: "length ?C2 = ?n + 4" by simp
  show "wire_value env (C @ fa_gates ?n x y z @ D) (Some (?n + 4))
           = ((wire_value env C x \<and> wire_value env C y)
               \<or> ((wire_value env C x \<noteq> wire_value env C y) \<and> wire_value env C z))"
    unfolding split using r [unfolded len] .
qed

lemma fulladder_sum:
  assumes "wire_in C x" "wire_in C y" "wire_in C z"
  shows "(of_bool (wire_value env (C @ fa_gates (length C) x y z @ D) (Some (length C + 2))) :: nat)
         + 2 * of_bool (wire_value env (C @ fa_gates (length C) x y z @ D) (Some (length C + 4)))
         = of_bool (wire_value env C x) + of_bool (wire_value env C y) + of_bool (wire_value env C z)"
  by (simp only: fulladder_values [OF assms]) (simp add: of_bool_def)

section \<open>Half adder and full adder\<close>

text \<open>
  C5 (as amended). For wires \<open>x\<close>, \<open>y\<close>, \<open>z\<close> of the netlist, whatever their values:
  \<open>halfadder\<close> appends exactly two gates, the sum \<^verbatim>\<open>xor(x, y)\<close> and the carry
  \<^verbatim>\<open>and(x, y)\<close>, and \<open>sum + 2 * carry = x + y\<close>; \<open>fulladder\<close> appends exactly five
  gates, the two half adders on \<open>(x, y)\<close> and on \<open>(s1, z)\<close> and the carry
  \<^verbatim>\<open>or(c1, c2)\<close>, and \<open>s2 + 2 * carry = x + y + z\<close>.
\<close>

theorem adders_correct:
  assumes "wire_ok C x" and "wire_ok C y" and "wire_ok C z"
  shows "halfadder C x y
           = (C @ [Gate ''xor'' [x, y], Gate ''and'' [x, y]], length C, Suc (length C))
       \<and> (case halfadder C x y of (C', s, c) \<Rightarrow>
             (of_bool (wire_value env C' (Some s)) :: nat) + 2 * of_bool (wire_value env C' (Some c))
               = of_bool (wire_value env C x) + of_bool (wire_value env C y))
       \<and> fulladder C x y z
           = (C @ [Gate ''xor'' [x, y], Gate ''and'' [x, y],
                   Gate ''xor'' [Some (length C), z], Gate ''and'' [Some (length C), z],
                   Gate ''or'' [Some (Suc (length C)), Some (length C + 3)]],
              length C + 2, length C + 4)
       \<and> (case fulladder C x y z of (C', s, c) \<Rightarrow>
             (of_bool (wire_value env C' (Some s)) :: nat) + 2 * of_bool (wire_value env C' (Some c))
               = of_bool (wire_value env C x) + of_bool (wire_value env C y)
                   + of_bool (wire_value env C z))"
proof -
  have x: "wire_in C x" and y: "wire_in C y" and z: "wire_in C z"
    using assms by (simp_all add: wire_ok_in)
  have h: "(of_bool (wire_value env (C @ [Gate ''xor'' [x, y], Gate ''and'' [x, y]]) (Some (length C))) :: nat)
         + 2 * of_bool (wire_value env (C @ [Gate ''xor'' [x, y], Gate ''and'' [x, y]]) (Some (Suc (length C))))
         = of_bool (wire_value env C x) + of_bool (wire_value env C y)"
    using halfadder_sum [OF x y, of env "[]"] .
  have f: "(of_bool (wire_value env (C @ fa_gates (length C) x y z) (Some (length C + 2))) :: nat)
         + 2 * of_bool (wire_value env (C @ fa_gates (length C) x y z) (Some (length C + 4)))
         = of_bool (wire_value env C x) + of_bool (wire_value env C y) + of_bool (wire_value env C z)"
    using fulladder_sum [OF x y z, of env "[]"] by simp
  show ?thesis
    using h f by (simp add: halfadder_eq fulladder_fa_gates) (simp add: fa_gates_def)
qed

theorem adders_correct_witness:
  "wire_ok [Gate ''x0'' [], Gate ''x1'' [], Gate ''x2'' []] (Some 0)
   \<and> wire_ok [Gate ''x0'' [], Gate ''x1'' [], Gate ''x2'' []] (Some 1)
   \<and> wire_ok [Gate ''x0'' [], Gate ''x1'' [], Gate ''x2'' []] (Some 2)
   \<and> fulladder [Gate ''x0'' [], Gate ''x1'' [], Gate ''x2'' []] (Some 0) (Some 1) (Some 2)
       = ([Gate ''x0'' [], Gate ''x1'' [], Gate ''x2'' [],
           Gate ''xor'' [Some 0, Some 1], Gate ''and'' [Some 0, Some 1],
           Gate ''xor'' [Some 3, Some 2], Gate ''and'' [Some 3, Some 2],
           Gate ''or'' [Some 4, Some 6]], 5, 7)"
  using adders_correct [of "[Gate ''x0'' [], Gate ''x1'' [], Gate ''x2'' []]" "Some 0" "Some 1" "Some 2"]
  by simp

theorem fulladder_four_appends_counterexample:
  "length (fst (fulladder [Gate ''x0'' [], Gate ''x1'' [], Gate ''x2'' []] (Some 0) (Some 1) (Some 2)))
     \<noteq> length [Gate ''x0'' [], Gate ''x1'' [], Gate ''x2'' []] + 4"
  by (simp add: fulladder_eq)

section \<open>The length check of the adder\<close>

text \<open>
  C8. When the two wire lists differ in length, \<open>adder\<close> ends with the error and the
  netlist it was given, no gate appended; when they have the same length it returns
  output wires and no error.
\<close>

theorem adder_length_check:
  "(length bits_a \<noteq> length bits_b \<longrightarrow> adder C bits_a bits_b = (C, Inl LengthMismatch))
   \<and> (length bits_a = length bits_b \<longrightarrow> (\<exists>outputs. snd (adder C bits_a bits_b) = Inr outputs))"
  by (simp add: adder_def split: prod.splits)

theorem adder_length_check_witness:
  "length [Some 0, Some (1::nat)] \<noteq> length [Some (2::nat)]
   \<and> adder [Gate ''a0'' [], Gate ''a1'' [], Gate ''b0'' []] [Some 0, Some 1] [Some 2]
       = ([Gate ''a0'' [], Gate ''a1'' [], Gate ''b0'' []], Inl LengthMismatch)
   \<and> length [Some (0::nat)] = length [Some (1::nat)]
   \<and> (\<exists>outputs. snd (adder [Gate ''a0'' [], Gate ''b0'' []] [Some 0] [Some 1]) = Inr outputs)"
  using adder_length_check [of "[Some 0, Some 1]" "[Some 2]" "[Gate ''a0'' [], Gate ''a1'' [], Gate ''b0'' []]"]
    adder_length_check [of "[Some 0]" "[Some 1]" "[Gate ''a0'' [], Gate ''b0'' []]"]
  by simp

section \<open>An empty column\<close>

text \<open>
  C9. A column without wires is not dropped: the pass for it pushes the unassigned
  \<^verbatim>\<open>s\<close> on it and the unassigned \<^verbatim>\<open>c\<close> on the next column, so \<open>compress\<close> of a
  single empty column returns two outputs, both \<^verbatim>\<open>undefined\<close>, and appends no gate.
\<close>

theorem compress_single_empty_column: "compress C [[]] = (C, [None, None])"
  by (simp add: compress_def reduce_empty carry_into_def)

section \<open>The compressor preserves the value of its columns\<close>

definition wires_in :: "netlist \<Rightarrow> wire list list \<Rightarrow> bool" where
  "wires_in C bits = (\<forall>col \<in> set bits. \<forall>w \<in> set col. wire_in C w)"

lemma wires_in_Nil [simp]: "wires_in C []"
  by (simp add: wires_in_def)

lemma wires_in_Cons: "wires_in C (col # rest) = ((\<forall>w \<in> set col. wire_in C w) \<and> wires_in C rest)"
  by (simp add: wires_in_def)

lemma wires_in_append: "wires_in C bits \<Longrightarrow> wires_in (C @ D) bits"
  by (simp add: wires_in_def wire_in_append)

lemma wires_in_carry_into:
  "wire_in C c \<Longrightarrow> wires_in C rest \<Longrightarrow> wires_in C (carry_into c rest)"
  by (cases rest) (auto simp: carry_into_def wires_in_def)

lemma cols_value_carry_into:
  "cols_value f (carry_into c rest) = of_bool (f c) + cols_value f rest"
  by (cases rest) (simp_all add: carry_into_def)

lemma cols_value_step:
  "cols_value f ((col' @ [s]) # carry_into c rest)
     = (\<Sum>w\<leftarrow>col'. of_bool (f w)) + of_bool (f s) + 2 * of_bool (f c) + 2 * cols_value f rest"
  by (simp add: cols_value_carry_into)

lemma cols_value_cong:
  "(\<And>col w. col \<in> set bits \<Longrightarrow> w \<in> set col \<Longrightarrow> f w = g w) \<Longrightarrow> cols_value f bits = cols_value g bits"
proof (induction bits)
  case Nil
  then show ?case by simp
next
  case (Cons col rest)
  have fw: "\<And>w. w \<in> set col \<Longrightarrow> f w = g w"
    using Cons.prems [of col] by simp
  have m: "map (\<lambda>w. of_bool (f w) :: nat) col = map (\<lambda>w. of_bool (g w)) col"
    by (rule map_cong) (simp_all add: fw)
  have r: "cols_value f rest = cols_value g rest"
  proof (rule Cons.IH)
    fix c w
    assume "c \<in> set rest" and "w \<in> set c"
    then show "f w = g w" using Cons.prems [of c w] by simp
  qed
  show ?case by (simp only: cols_value.simps m r)
qed

lemma cols_value_append:
  "wires_in C bits \<Longrightarrow> cols_value (wire_value env (C @ D)) bits = cols_value (wire_value env C) bits"
  by (rule cols_value_cong) (simp add: wires_in_def wire_value_append)

lemma col_sum_append:
  "(\<forall>w \<in> set col. wire_in C w) \<Longrightarrow>
   (\<Sum>w\<leftarrow>col. of_bool (wire_value env (C @ D) w) :: nat) = (\<Sum>w\<leftarrow>col. of_bool (wire_value env C w))"
  by (induction col) (simp_all add: wire_value_append)

lemma three_wires: "3 \<le> length col \<Longrightarrow> col = col ! 0 # col ! 1 # col ! 2 # drop 3 col"
  by (cases col; cases "tl col"; cases "tl (tl col)") auto

lemma two_wires: "length col = 2 \<Longrightarrow> col = [col ! 0, col ! 1]"
  by (cases col; cases "tl col") auto

text \<open>What one pass does to the netlist, to the columns and to their value.\<close>

lemma reduce_extends: "\<exists>D. fst (reduce C col rest) = C @ D"
proof -
  consider "3 \<le> length col" | "length col = 2" | "\<not> 3 \<le> length col \<and> length col \<noteq> 2" by blast
  then show ?thesis
    by cases (auto simp: reduce_full reduce_half fulladder_eq halfadder_eq reduce_def Let_def
        split: list.splits)
qed

lemma reduce_wires_in:
  assumes "wires_in C (col # rest)"
  shows "wires_in (fst (reduce C col rest)) (snd (reduce C col rest))"
proof -
  have col: "\<forall>w \<in> set col. wire_in C w" and rest: "wires_in C rest"
    using assms by (simp_all add: wires_in_Cons)
  consider "3 \<le> length col" | "length col = 2" | "length col = 1" | "col = []"
    using length_cases [of col] by blast
  then show ?thesis
  proof cases
    case 1
    let ?C' = "C @ fa_gates (length C) (col ! 0) (col ! 1) (col ! 2)"
    have "\<forall>w \<in> set (drop 3 col). wire_in C w"
      using col by (meson in_set_dropD)
    then have a: "\<forall>w \<in> set (drop 3 col @ [Some (length C + 2)]). wire_in ?C' w"
      by (auto simp: wire_in_append fa_gates_def)
    have b: "wires_in ?C' (carry_into (Some (length C + 4)) rest)"
      by (rule wires_in_carry_into) (simp_all add: fa_gates_def wires_in_append rest)
    show ?thesis using 1 a b
      by (simp add: reduce_full fulladder_fa_gates wires_in_Cons)
  next
    case 2
    let ?C' = "C @ [Gate ''xor'' [col ! 0, col ! 1], Gate ''and'' [col ! 0, col ! 1]]"
    have a: "\<forall>w \<in> set (drop 2 col @ [Some (length C)]). wire_in ?C' w"
      using 2 by simp
    have b: "wires_in ?C' (carry_into (Some (Suc (length C))) rest)"
      by (rule wires_in_carry_into) (simp_all add: wires_in_append rest)
    show ?thesis using 2 a b
      by (simp add: reduce_half halfadder_eq wires_in_Cons)
  next
    case 3
    then obtain w where w: "col = [w]" by (cases col) auto
    have "reduce C [w] rest = (C, [w, None] # carry_into None rest)"
      by (simp add: reduce_def carry_into_def Let_def split: list.splits)
    then show ?thesis using col rest w
      by (simp add: wires_in_Cons wires_in_carry_into)
  next
    case 4
    then show ?thesis using rest
      by (simp add: reduce_empty wires_in_Cons wires_in_carry_into)
  qed
qed

lemma reduce_value:
  assumes "wires_in C (col # rest)" and "length col \<noteq> 1"
  shows "cols_value (wire_value env (fst (reduce C col rest))) (snd (reduce C col rest))
           = cols_value (wire_value env C) (col # rest)"
proof -
  have col: "\<forall>w \<in> set col. wire_in C w" and rest: "wires_in C rest"
    using assms by (simp_all add: wires_in_Cons)
  consider "3 \<le> length col" | "length col = 2" | "col = []"
    using length_cases [OF assms(2)] by blast
  then show ?thesis
  proof cases
    case 1
    let ?x = "col ! 0" and ?y = "col ! 1" and ?z = "col ! 2"
    let ?C' = "C @ fa_gates (length C) ?x ?y ?z"
    have c3: "col = ?x # ?y # ?z # drop 3 col" using 1 by (rule three_wires)
    have "?x \<in> set col" "?y \<in> set col" "?z \<in> set col"
      using 1 by (auto intro!: nth_mem)
    then have xyz: "wire_in C ?x" "wire_in C ?y" "wire_in C ?z"
      using col by blast+
    have d3: "\<forall>w \<in> set (drop 3 col). wire_in C w"
      using col by (meson in_set_dropD)
    have fa: "(of_bool (wire_value env ?C' (Some (length C + 2))) :: nat)
         + 2 * of_bool (wire_value env ?C' (Some (length C + 4)))
         = of_bool (wire_value env C ?x) + of_bool (wire_value env C ?y) + of_bool (wire_value env C ?z)"
      using fulladder_sum [OF xyz, of env "[]"] by simp
    have s3: "(\<Sum>w\<leftarrow>drop 3 col. of_bool (wire_value env ?C' w) :: nat)
               = (\<Sum>w\<leftarrow>drop 3 col. of_bool (wire_value env C w))"
      using d3 by (rule col_sum_append)
    have r: "cols_value (wire_value env ?C') rest = cols_value (wire_value env C) rest"
      using rest by (rule cols_value_append)
    have whole: "(\<Sum>w\<leftarrow>col. of_bool (wire_value env C w) :: nat)
        = of_bool (wire_value env C ?x) + of_bool (wire_value env C ?y) + of_bool (wire_value env C ?z)
          + (\<Sum>w\<leftarrow>drop 3 col. of_bool (wire_value env C w))"
      by (subst c3) simp
    have "cols_value (wire_value env ?C')
            ((drop 3 col @ [Some (length C + 2)]) # carry_into (Some (length C + 4)) rest)
          = (\<Sum>w\<leftarrow>drop 3 col. of_bool (wire_value env ?C' w))
             + of_bool (wire_value env ?C' (Some (length C + 2)))
             + 2 * of_bool (wire_value env ?C' (Some (length C + 4)))
             + 2 * cols_value (wire_value env ?C') rest"
      by (rule cols_value_step)
    also have "\<dots> = cols_value (wire_value env C) (col # rest)"
      unfolding cols_value.simps using fa s3 r whole by linarith
    finally have "cols_value (wire_value env ?C')
            ((drop 3 col @ [Some (length C + 2)]) # carry_into (Some (length C + 4)) rest)
          = cols_value (wire_value env C) (col # rest)" .
    then show ?thesis using 1 by (simp add: reduce_full fulladder_fa_gates)
  next
    case 2
    let ?x = "col ! 0" and ?y = "col ! 1"
    let ?C' = "C @ [Gate ''xor'' [?x, ?y], Gate ''and'' [?x, ?y]]"
    have c2: "col = [?x, ?y]" using 2 by (rule two_wires)
    have xy: "wire_in C ?x" "wire_in C ?y"
    proof -
      have "?x \<in> set col" "?y \<in> set col"
        using 2 by (auto intro!: nth_mem)
      then show "wire_in C ?x" "wire_in C ?y"
        using col by blast+
    qed
    have ha: "(of_bool (wire_value env ?C' (Some (length C))) :: nat)
         + 2 * of_bool (wire_value env ?C' (Some (Suc (length C))))
         = of_bool (wire_value env C ?x) + of_bool (wire_value env C ?y)"
      using halfadder_sum [OF xy, of env "[]"] .
    have r: "cols_value (wire_value env ?C') rest = cols_value (wire_value env C) rest"
      using rest by (rule cols_value_append)
    have d2: "(\<Sum>w\<leftarrow>drop 2 col. of_bool (wire_value env ?C' w) :: nat) = 0"
      using 2 by simp
    have whole: "(\<Sum>w\<leftarrow>col. of_bool (wire_value env C w) :: nat)
        = of_bool (wire_value env C ?x) + of_bool (wire_value env C ?y)"
      by (subst c2) simp
    have "cols_value (wire_value env ?C')
            ((drop 2 col @ [Some (length C)]) # carry_into (Some (Suc (length C))) rest)
          = (\<Sum>w\<leftarrow>drop 2 col. of_bool (wire_value env ?C' w))
             + of_bool (wire_value env ?C' (Some (length C)))
             + 2 * of_bool (wire_value env ?C' (Some (Suc (length C))))
             + 2 * cols_value (wire_value env ?C') rest"
      by (rule cols_value_step)
    also have "\<dots> = cols_value (wire_value env C) (col # rest)"
      unfolding cols_value.simps using ha d2 r whole by linarith
    finally have "cols_value (wire_value env ?C')
            ((drop 2 col @ [Some (length C)]) # carry_into (Some (Suc (length C))) rest)
          = cols_value (wire_value env C) (col # rest)" .
    then show ?thesis using 2 by (simp add: reduce_half halfadder_eq)
  next
    case 3
    have "wire_value env C None = False"
      by (simp add: wire_value_def wv_def)
    then show ?thesis using 3
      by (simp add: reduce_empty cols_value_carry_into)
  qed
qed

lemma compress_loop_value:
  assumes "wires_in C bits"
  shows "\<exists>D new. compress_loop C bits outputs = (C @ D, outputs @ new)
           \<and> bits_value (map (wire_value env (C @ D)) new) = cols_value (wire_value env C) bits"
  using assms
proof (induction C bits outputs rule: compress_loop.induct)
  case (1 C outputs)
  have "compress_loop C [] outputs = (C @ [], outputs @ [])
        \<and> bits_value (map (wire_value env (C @ [])) []) = cols_value (wire_value env C) []"
    by simp
  then show ?case by blast
next
  case (2 C col rest outputs)
  show ?case
  proof (cases "length col = 1")
    case True
    then obtain w where w: "col = [w]" by (cases col) auto
    have win: "wire_in C w" and rest: "wires_in C rest"
      using "2.prems" by (simp_all add: wires_in_Cons w)
    obtain D new where
      run: "compress_loop C rest (outputs @ [col ! 0]) = (C @ D, (outputs @ [col ! 0]) @ new)"
      and val: "bits_value (map (wire_value env (C @ D)) new) = cols_value (wire_value env C) rest"
      using "2.IH"(1) [OF True rest] by blast
    have "compress_loop C (col # rest) outputs = (C @ D, outputs @ (w # new))"
      using run True by (simp add: w)
    moreover have "bits_value (map (wire_value env (C @ D)) (w # new))
                   = cols_value (wire_value env C) (col # rest)"
      using val win by (simp add: w wire_value_append)
    ultimately show ?thesis by blast
  next
    case False
    let ?C1 = "fst (reduce C col rest)" and ?bits1 = "snd (reduce C col rest)"
    obtain D0 where D0: "?C1 = C @ D0" using reduce_extends by blast
    have w1: "wires_in ?C1 ?bits1" using "2.prems" by (rule reduce_wires_in)
    obtain D new where
      run: "compress_loop ?C1 ?bits1 outputs = (?C1 @ D, outputs @ new)"
      and val: "bits_value (map (wire_value env (?C1 @ D)) new) = cols_value (wire_value env ?C1) ?bits1"
      using "2.IH"(2) [OF False w1] by blast
    have "compress_loop C (col # rest) outputs = (C @ (D0 @ D), outputs @ new)"
      using run False by (simp add: D0)
    moreover have "bits_value (map (wire_value env (C @ (D0 @ D))) new)
                   = cols_value (wire_value env C) (col # rest)"
      using val reduce_value [OF "2.prems" False, of env] by (simp add: D0)
    ultimately show ?thesis by blast
  qed
qed

definition all_ok :: "netlist \<Rightarrow> wire list list \<Rightarrow> bool" where
  "all_ok C bits = (\<forall>col \<in> set bits. col \<noteq> [] \<and> (\<forall>w \<in> set col. wire_ok C w))"

lemma all_ok_Cons:
  "all_ok C (col # rest) = (col \<noteq> [] \<and> (\<forall>w \<in> set col. wire_ok C w) \<and> all_ok C rest)"
  by (auto simp: all_ok_def)

lemma all_ok_append: "all_ok C bits \<Longrightarrow> all_ok (C @ D) bits"
  by (simp add: all_ok_def wire_ok_append)

lemma all_ok_carry_into: "wire_ok C c \<Longrightarrow> all_ok C rest \<Longrightarrow> all_ok C (carry_into c rest)"
  by (cases rest) (auto simp: carry_into_def all_ok_def)

lemma reduce_all_ok:
  assumes "all_ok C (col # rest)" and "length col \<noteq> 1"
  shows "all_ok (fst (reduce C col rest)) (snd (reduce C col rest))"
proof -
  have col: "\<forall>w \<in> set col. wire_ok C w" and rest: "all_ok C rest" and ne: "col \<noteq> []"
    using assms by (simp_all add: all_ok_Cons)
  consider "3 \<le> length col" | "length col = 2"
    using length_cases [OF assms(2)] ne by blast
  then show ?thesis
  proof cases
    case 1
    let ?C' = "C @ fa_gates (length C) (col ! 0) (col ! 1) (col ! 2)"
    have "\<forall>w \<in> set (drop 3 col). wire_ok C w"
      using col by (meson in_set_dropD)
    then have a: "\<forall>w \<in> set (drop 3 col @ [Some (length C + 2)]). wire_ok ?C' w"
      by (auto simp: wire_ok_append fa_gates_def)
    have b: "all_ok ?C' (carry_into (Some (length C + 4)) rest)"
      by (rule all_ok_carry_into) (simp_all add: fa_gates_def all_ok_append rest)
    show ?thesis using 1 a b
      by (simp add: reduce_full fulladder_fa_gates all_ok_Cons)
  next
    case 2
    let ?C' = "C @ [Gate ''xor'' [col ! 0, col ! 1], Gate ''and'' [col ! 0, col ! 1]]"
    have a: "\<forall>w \<in> set (drop 2 col @ [Some (length C)]). wire_ok ?C' w"
      using 2 by simp
    have b: "all_ok ?C' (carry_into (Some (Suc (length C))) rest)"
      by (rule all_ok_carry_into) (simp_all add: all_ok_append rest)
    show ?thesis using 2 a b
      by (simp add: reduce_half halfadder_eq all_ok_Cons)
  qed
qed

lemma compress_loop_extends: "\<exists>D. fst (compress_loop C bits outputs) = C @ D"
proof (induction C bits outputs rule: compress_loop.induct)
  case (1 C outputs)
  then show ?case by simp
next
  case (2 C col rest outputs)
  show ?case
  proof (cases "length col = 1")
    case True
    then show ?thesis using "2.IH"(1) by simp
  next
    case False
    obtain D0 where D0: "fst (reduce C col rest) = C @ D0" using reduce_extends by blast
    obtain D where "fst (compress_loop (fst (reduce C col rest)) (snd (reduce C col rest)) outputs)
                    = fst (reduce C col rest) @ D"
      using "2.IH"(2) [OF False] by blast
    then have "fst (compress_loop C (col # rest) outputs) = C @ (D0 @ D)"
      using False by (simp add: D0)
    then show ?thesis by blast
  qed
qed

lemma compress_loop_defined:
  assumes "all_ok C bits" and "\<forall>w \<in> set outputs. wire_ok C w"
  shows "\<forall>w \<in> set (snd (compress_loop C bits outputs)).
           wire_ok (fst (compress_loop C bits outputs)) w"
  using assms
proof (induction C bits outputs rule: compress_loop.induct)
  case (1 C outputs)
  then show ?case by simp
next
  case (2 C col rest outputs)
  show ?case
  proof (cases "length col = 1")
    case True
    then obtain w where w: "col = [w]" by (cases col) auto
    have "all_ok C rest" and "\<forall>v \<in> set (outputs @ [col ! 0]). wire_ok C v"
      using "2.prems" by (simp_all add: all_ok_Cons w)
    then show ?thesis using "2.IH"(1) [OF True] True by simp
  next
    case False
    obtain D0 where D0: "fst (reduce C col rest) = C @ D0" using reduce_extends by blast
    have a: "all_ok (fst (reduce C col rest)) (snd (reduce C col rest))"
      using "2.prems"(1) False by (rule reduce_all_ok)
    have b: "\<forall>w \<in> set outputs. wire_ok (fst (reduce C col rest)) w"
      using "2.prems"(2) by (simp add: D0 wire_ok_append)
    show ?thesis using "2.IH"(2) [OF False a b] False by simp
  qed
qed

lemma compress_loop_value_total:
  assumes "\<forall>col \<in> set bits. \<forall>w \<in> set col. wire_ok C w"
  shows "out_value env (fst (compress C bits)) (snd (compress C bits))
           = cols_value (wire_value env C) bits"
    and "cols_value (wire_value env (fst (compress C bits))) bits
           = cols_value (wire_value env C) bits"
    and "[] \<notin> set bits \<Longrightarrow>
           \<forall>w \<in> set (snd (compress C bits)). wire_ok (fst (compress C bits)) w"
proof -
  have win: "wires_in C bits"
    using assms by (simp add: wires_in_def wire_ok_in)
  obtain D new where run: "compress_loop C bits [] = (C @ D, [] @ new)"
    and val: "bits_value (map (wire_value env (C @ D)) new) = cols_value (wire_value env C) bits"
    using compress_loop_value [OF win, of "[]" env] by blast
  show "out_value env (fst (compress C bits)) (snd (compress C bits))
           = cols_value (wire_value env C) bits"
    using run val by (simp add: compress_def out_value_def)
  show "cols_value (wire_value env (fst (compress C bits))) bits
           = cols_value (wire_value env C) bits"
    using run cols_value_append [OF win, of env D] by (simp add: compress_def)
  show "\<forall>w \<in> set (snd (compress C bits)). wire_ok (fst (compress C bits)) w"
    if "[] \<notin> set bits"
  proof -
    have "all_ok C bits" using assms that by (auto simp: all_ok_def)
    then show ?thesis unfolding compress_def by (rule compress_loop_defined) simp
  qed
qed

text \<open>
  C1. For columns of wires of the netlist, column \<open>w\<close> of weight \<open>2 ^ w\<close>, and every
  assignment \<open>env\<close> to the primary inputs: the number the output bits of \<open>compress\<close> spell,
  least significant bit first, in the netlist that \<open>compress\<close> leaves, is the sum over
  all the wires of the columns of the wire's value times the weight of its column. The
  wires of the columns have in the grown netlist the value they had before. When no column
  is empty, every output is a wire of the grown netlist.
\<close>

theorem compress_value:
  assumes "\<forall>col \<in> set bits. \<forall>w \<in> set col. wire_ok C w"
  shows "out_value env (fst (compress C bits)) (snd (compress C bits))
           = cols_value (wire_value env (fst (compress C bits))) bits
       \<and> cols_value (wire_value env (fst (compress C bits))) bits
           = cols_value (wire_value env C) bits
       \<and> ([] \<notin> set bits \<longrightarrow>
            (\<forall>w \<in> set (snd (compress C bits)). wire_ok (fst (compress C bits)) w))"
  using compress_loop_value_total(1,2) [OF assms, of env] compress_loop_value_total(3) [OF assms]
  by simp

theorem compress_value_witness:
  "list_all (list_all (wire_ok [Gate ''x0'' [], Gate ''x1'' [], Gate ''x2'' [], Gate ''x3'' [],
                                Gate ''x4'' [], Gate ''y0'' [], Gate ''y1'' []]))
      [[Some 0, Some 1, Some 2, Some 3, Some 4], [Some 5, Some 6]]
   \<and> [] \<notin> set [[Some 0, Some 1, Some 2, Some 3, Some 4], [Some 5, Some (6::nat)]]
   \<and> out_value (\<lambda>i. True)
         (fst (compress [Gate ''x0'' [], Gate ''x1'' [], Gate ''x2'' [], Gate ''x3'' [], Gate ''x4'' [],
                         Gate ''y0'' [], Gate ''y1'' []]
                 [[Some 0, Some 1, Some 2, Some 3, Some 4], [Some 5, Some 6]]))
         (snd (compress [Gate ''x0'' [], Gate ''x1'' [], Gate ''x2'' [], Gate ''x3'' [], Gate ''x4'' [],
                         Gate ''y0'' [], Gate ''y1'' []]
                 [[Some 0, Some 1, Some 2, Some 3, Some 4], [Some 5, Some 6]])) = 9"
  using compress_value [of "[[Some 0, Some 1, Some 2, Some 3, Some 4], [Some 5, Some 6]]"
      "[Gate ''x0'' [], Gate ''x1'' [], Gate ''x2'' [], Gate ''x3'' [], Gate ''x4'' [],
        Gate ''y0'' [], Gate ''y1'' []]" "\<lambda>i. True"]
  by (simp add: wire_value_def wire_values_def wv_def gate_val_def)

section \<open>How many bits the compressor returns\<close>

text \<open>The number the columns would stand for with every wire set.\<close>

fun capacity :: "nat list \<Rightarrow> nat" where
  "capacity [] = 0"
| "capacity (k # ks) = k + 2 * capacity ks"

lemma floorlog2_odd: "floorlog 2 (Suc (2 * m)) = Suc (floorlog 2 m)"
  by (subst compute_floorlog) simp

lemma floorlog2_even: "0 < m \<Longrightarrow> floorlog 2 (2 * m) = Suc (floorlog 2 m)"
  by (subst compute_floorlog) simp

lemma floorlog2_half_step: "floorlog 2 (2 + 2 * m) = floorlog 2 (3 + 2 * m)"
proof -
  have "floorlog 2 (2 + 2 * m) = Suc (floorlog 2 (Suc m))"
    using floorlog2_even [of "Suc m"] by simp
  moreover have "floorlog 2 (3 + 2 * m) = Suc (floorlog 2 (Suc m))"
    using floorlog2_odd [of "Suc m"] by (simp add: numeral_3_eq_3)
  ultimately show ?thesis by simp
qed

lemma capacity_carry_into:
  "capacity (map length (carry_into c rest)) = Suc (capacity (map length rest))"
  by (cases rest) (simp_all add: carry_into_def)

lemma carry_into_nonempty: "[] \<notin> set rest \<Longrightarrow> [] \<notin> set (carry_into c rest)"
  by (cases rest) (auto simp: carry_into_def)

lemma reduce_nonempty:
  assumes "[] \<notin> set (col # rest)" and "length col \<noteq> 1"
  shows "[] \<notin> set (snd (reduce C col rest))"
proof -
  have rest: "[] \<notin> set rest" and ne: "col \<noteq> []" using assms(1) by auto
  consider "3 \<le> length col" | "length col = 2"
    using length_cases [OF assms(2)] ne by blast
  then show ?thesis
    by cases (simp_all add: reduce_full reduce_half carry_into_nonempty rest)
qed

lemma reduce_capacity:
  assumes "col \<noteq> []" and "length col \<noteq> 1"
  shows "floorlog 2 (capacity (map length (snd (reduce C col rest))))
           = floorlog 2 (capacity (map length (col # rest)))"
proof -
  define m where "m = capacity (map length rest)"
  consider "3 \<le> length col" | "length col = 2"
    using length_cases [OF assms(2)] assms(1) by blast
  then show ?thesis
  proof cases
    case 1
    then have "capacity (map length (snd (reduce C col rest))) = capacity (map length (col # rest))"
      by (simp add: reduce_full capacity_carry_into)
    then show ?thesis by simp
  next
    case 2
    then have "capacity (map length (snd (reduce C col rest))) = 3 + 2 * m"
      and "capacity (map length (col # rest)) = 2 + 2 * m"
      by (simp_all add: reduce_half capacity_carry_into m_def)
    then show ?thesis by (simp only: floorlog2_half_step)
  qed
qed

lemma compress_loop_length:
  assumes "[] \<notin> set bits"
  shows "length (snd (compress_loop C bits outputs))
           = length outputs + floorlog 2 (capacity (map length bits))"
  using assms
proof (induction C bits outputs rule: compress_loop.induct)
  case (1 C outputs)
  then show ?case by (simp add: floorlog_def)
next
  case (2 C col rest outputs)
  show ?case
  proof (cases "length col = 1")
    case True
    have "[] \<notin> set rest" using "2.prems" by simp
    then have "length (snd (compress_loop C rest (outputs @ [col ! 0])))
                 = length (outputs @ [col ! 0]) + floorlog 2 (capacity (map length rest))"
      by (rule "2.IH"(1) [OF True])
    then show ?thesis using True by (simp add: floorlog2_odd)
  next
    case False
    have ne: "col \<noteq> []" using "2.prems" by auto
    have "[] \<notin> set (snd (reduce C col rest))"
      using "2.prems" False by (rule reduce_nonempty)
    then have "length (snd (compress_loop (fst (reduce C col rest)) (snd (reduce C col rest)) outputs))
                 = length outputs + floorlog 2 (capacity (map length (snd (reduce C col rest))))"
      by (rule "2.IH"(2) [OF False])
    then show ?thesis using False by (simp only: reduce_capacity [OF ne False] compress_loop.simps if_False)
  qed
qed

lemma compress_length:
  "[] \<notin> set bits \<Longrightarrow> length (snd (compress C bits)) = floorlog 2 (capacity (map length bits))"
  by (simp add: compress_def compress_loop_length)

section \<open>The adder\<close>

lemma adder_columns:
  "length a = length b \<Longrightarrow>
   map (\<lambda>i. [a ! i, b ! i]) [0..<length a] = map (\<lambda>(x, y). [x, y]) (zip a b)"
  by (rule nth_equalityI) simp_all

lemma cols_value_pairs:
  "length a = length b \<Longrightarrow>
   cols_value f (map (\<lambda>(x, y). [x, y]) (zip a b)) = bits_value (map f a) + bits_value (map f b)"
  by (induction a b rule: list_induct2) simp_all

lemma capacity_pairs:
  "length a = length b \<Longrightarrow>
   capacity (map length (map (\<lambda>(x, y). [x, y]) (zip a b))) + 2 = 2 * 2 ^ length a"
  by (induction a b rule: list_induct2) simp_all

lemma floorlog2_mask: "Suc m = 2 ^ n \<Longrightarrow> floorlog 2 m = n"
proof (induction n arbitrary: m)
  case 0
  then show ?case by (simp add: floorlog_def)
next
  case (Suc n)
  obtain k where k: "Suc k = 2 ^ n"
    by (metis Suc_pred zero_less_numeral zero_less_power)
  have "Suc m = 2 * Suc k" using Suc.prems k by simp
  then have m: "m = Suc (2 * k)" by simp
  show ?case using Suc.IH [OF k] by (simp only: m floorlog2_odd)
qed

lemma floorlog2_pairs:
  assumes "c + 2 = 2 * 2 ^ n"
  shows "floorlog 2 c = (if n = 0 then 0 else Suc n)"
proof (cases "n = 0")
  case True
  then have "c = 0" using assms by simp
  then show ?thesis using True by (simp add: floorlog_def)
next
  case False
  obtain k where k: "Suc k = 2 ^ n"
    by (metis Suc_pred zero_less_numeral zero_less_power)
  have "(2::nat) ^ n \<ge> 2 ^ 1" using False by (intro power_increasing) simp_all
  then have pos: "0 < k" using k by simp
  have "c + 2 = 2 * Suc k" using assms k by simp
  then have c: "c = 2 * k" by simp
  show ?thesis using False floorlog2_mask [OF k] pos by (simp add: c floorlog2_even)
qed

lemma pairs_nonempty: "[] \<notin> set (map (\<lambda>(x, y). [x, y]) (zip a b))"
  by auto

text \<open>
  C2 (as amended). For wire lists \<open>bits_a\<close> and \<open>bits_b\<close> of the same length \<open>n\<close>, wires
  of the netlist, and every assignment \<open>env\<close>: \<open>adder\<close> returns output wires, wires of the
  grown netlist, whose value as a number, least significant bit first, is the sum of the
  numbers \<open>bits_a\<close> and \<open>bits_b\<close> spell. For \<open>n \<ge> 1\<close> there are \<open>n + 1\<close> output bits, the last
  one the carry out; for \<open>n = 0\<close> there is none.
\<close>

theorem adder_value:
  assumes "length bits_a = length bits_b"
    and "\<forall>w \<in> set bits_a. wire_ok C w" and "\<forall>w \<in> set bits_b. wire_ok C w"
  shows "\<exists>outputs. snd (adder C bits_a bits_b) = Inr outputs
           \<and> out_value env (fst (adder C bits_a bits_b)) outputs
               = out_value env C bits_a + out_value env C bits_b
           \<and> length outputs = (if bits_a = [] then 0 else length bits_a + 1)
           \<and> list_all (wire_ok (fst (adder C bits_a bits_b))) outputs"
proof -
  let ?land = "map (\<lambda>(x, y). [x, y]) (zip bits_a bits_b)"
  have cols: "map (\<lambda>i. [bits_a ! i, bits_b ! i]) [0..<length bits_a] = ?land"
    using assms(1) by (rule adder_columns)
  have run: "adder C bits_a bits_b = (fst (compress C ?land), Inr (snd (compress C ?land)))"
    unfolding adder_def Let_def cols using assms(1) by (simp add: case_prod_unfold)
  have ok: "\<forall>col \<in> set ?land. \<forall>w \<in> set col. wire_ok C w"
    using assms(2,3) by (auto dest: set_zip_leftD set_zip_rightD)
  have v: "out_value env (fst (compress C ?land)) (snd (compress C ?land))
             = cols_value (wire_value env C) ?land"
    and d: "\<forall>w \<in> set (snd (compress C ?land)). wire_ok (fst (compress C ?land)) w"
    using compress_loop_value_total(1) [OF ok, of env] compress_loop_value_total(3) [OF ok]
      pairs_nonempty [of bits_a bits_b] by simp_all
  have "cols_value (wire_value env C) ?land = out_value env C bits_a + out_value env C bits_b"
    using assms(1) by (simp add: cols_value_pairs out_value_def)
  moreover have "length (snd (compress C ?land)) = (if bits_a = [] then 0 else length bits_a + 1)"
  proof -
    have "length (snd (compress C ?land)) = floorlog 2 (capacity (map length ?land))"
      by (rule compress_length) (rule pairs_nonempty)
    also have "\<dots> = (if length bits_a = 0 then 0 else Suc (length bits_a))"
      by (rule floorlog2_pairs [OF capacity_pairs [OF assms(1)]])
    finally show ?thesis by simp
  qed
  ultimately show ?thesis
    using v d by (simp add: run list_all_iff)
qed

theorem adder_value_witness:
  "length [Some 0, Some (1::nat)] = length [Some 2, Some (3::nat)]
   \<and> list_all (wire_ok [Gate ''a0'' [], Gate ''a1'' [], Gate ''b0'' [], Gate ''b1'' []])
         [Some 0, Some 1]
   \<and> list_all (wire_ok [Gate ''a0'' [], Gate ''a1'' [], Gate ''b0'' [], Gate ''b1'' []])
         [Some 2, Some 3]
   \<and> (\<exists>outputs.
         snd (adder [Gate ''a0'' [], Gate ''a1'' [], Gate ''b0'' [], Gate ''b1'' []]
                [Some 0, Some 1] [Some 2, Some 3]) = Inr outputs
         \<and> out_value (\<lambda>i. i \<noteq> 1)
               (fst (adder [Gate ''a0'' [], Gate ''a1'' [], Gate ''b0'' [], Gate ''b1'' []]
                      [Some 0, Some 1] [Some 2, Some 3])) outputs = 1 + 3
         \<and> length outputs = 3)"
proof -
  let ?C = "[Gate ''a0'' [], Gate ''a1'' [], Gate ''b0'' [], Gate ''b1'' []]"
  let ?a = "[Some 0, Some (1::nat)]" and ?b = "[Some 2, Some (3::nat)]"
  let ?env = "\<lambda>i::nat. i \<noteq> 1"
  have h: "length ?a = length ?b" "\<forall>w \<in> set ?a. wire_ok ?C w" "\<forall>w \<in> set ?b. wire_ok ?C w"
    by simp_all
  obtain outputs where o: "snd (adder ?C ?a ?b) = Inr outputs"
    and v: "out_value ?env (fst (adder ?C ?a ?b)) outputs = out_value ?env ?C ?a + out_value ?env ?C ?b"
    and l: "length outputs = (if ?a = [] then 0 else length ?a + 1)"
    using adder_value [OF h, of ?env] by blast
  have "out_value ?env ?C ?a = 1" and "out_value ?env ?C ?b = 3"
    by (simp_all add: out_value_def wire_value_def wire_values_def wv_def gate_val_def)
  then have "out_value ?env (fst (adder ?C ?a ?b)) outputs = 1 + 3" and "length outputs = 3"
    using v l by simp_all
  then show ?thesis using o by simp
qed

theorem adder_zero_width_counterexample:
  "snd (adder [] [] []) = Inr [] \<and> length ([] :: wire list) \<noteq> 0 + 1"
  by (simp add: adder_def compress_def)

section \<open>Popcount\<close>

lemma sum_of_bool_filter: "(\<Sum>w\<leftarrow>xs. of_bool (f w) :: nat) = length (filter f xs)"
  by (induction xs) simp_all

lemma floorlog2_ceiling:
  assumes "0 < n"
  shows "int (floorlog 2 n) = \<lceil>log 2 (real (n + 1))\<rceil>"
proof -
  have b: "2 ^ (floorlog 2 n - 1) \<le> n" "n < 2 ^ floorlog 2 n"
    using floorlog_bounds [of n 2] assms by simp_all
  have pos: "0 < floorlog 2 n"
    using assms by (simp add: floorlog_def)
  then have "(2::nat) ^ floorlog 2 n = 2 * 2 ^ (floorlog 2 n - 1)"
    by (cases "floorlog 2 n") simp_all
  then have "n + 1 \<le> 2 ^ floorlog 2 n" and "2 ^ floorlog 2 n < 2 * (n + 1)"
    using b by simp_all
  then have "ceillog2 (n + 1) = floorlog 2 n"
    by (rule ceillog2_eqI)
  then have c: "nat \<lceil>log 2 (real (n + 1))\<rceil> = floorlog 2 n"
    by (simp add: ceillog2_def)
  have "0 \<le> log 2 (real (n + 1))" by simp
  then have "0 \<le> \<lceil>log 2 (real (n + 1))\<rceil>" by linarith
  then have "int (nat \<lceil>log 2 (real (n + 1))\<rceil>) = \<lceil>log 2 (real (n + 1))\<rceil>"
    by linarith
  then show ?thesis by (simp only: c)
qed

text \<open>
  C4. For a list of \<open>n \<ge> 1\<close> wires of the netlist and every assignment \<open>env\<close>: the output
  bits of \<open>popcount\<close>, least significant bit first, spell the number of wires of the list
  that are set, and there are exactly \<open>\<lceil>log\<^sub>2 (n + 1)\<rceil>\<close> of them, each a wire of the grown
  netlist. (The bound \<open>n \<le> 16\<close> is not needed.)
\<close>

theorem popcount_value:
  assumes "1 \<le> length bits" and "\<forall>w \<in> set bits. wire_ok C w"
  shows "out_value env (fst (popcount C bits)) (snd (popcount C bits))
           = length (filter (wire_value env C) bits)
       \<and> int (length (snd (popcount C bits))) = \<lceil>log 2 (real (length bits + 1))\<rceil>
       \<and> list_all (wire_ok (fst (popcount C bits))) (snd (popcount C bits))"
proof -
  have ok: "\<forall>col \<in> set [bits]. \<forall>w \<in> set col. wire_ok C w"
    using assms(2) by simp
  have ne: "[] \<notin> set [bits]" using assms(1) by auto
  have "out_value env (fst (compress C [bits])) (snd (compress C [bits]))
          = cols_value (wire_value env C) [bits]"
    by (rule compress_loop_value_total(1) [OF ok])
  then have v: "out_value env (fst (compress C [bits])) (snd (compress C [bits]))
          = length (filter (wire_value env C) bits)"
    by (simp add: sum_of_bool_filter)
  have "length (snd (compress C [bits])) = floorlog 2 (capacity (map length [bits]))"
    using ne by (rule compress_length)
  moreover have "0 < length bits" using assms(1) by linarith
  then have "int (floorlog 2 (length bits)) = \<lceil>log 2 (real (length bits + 1))\<rceil>"
    by (rule floorlog2_ceiling)
  ultimately have "int (length (snd (compress C [bits]))) = \<lceil>log 2 (real (length bits + 1))\<rceil>"
    by simp
  moreover have "\<forall>w \<in> set (snd (compress C [bits])). wire_ok (fst (compress C [bits])) w"
    using ne by (rule compress_loop_value_total(3) [OF ok])
  ultimately show ?thesis using v by (simp add: popcount_def list_all_iff)
qed

theorem popcount_value_witness:
  "1 \<le> length [Some 0, Some 1, Some 2, Some 3, Some (4::nat)]
   \<and> list_all (wire_ok [Gate ''x0'' [], Gate ''x1'' [], Gate ''x2'' [], Gate ''x3'' [],
                         Gate ''x4'' []])
        [Some 0, Some 1, Some 2, Some 3, Some 4]
   \<and> out_value (\<lambda>i. i \<in> {0, 2, 3})
        (fst (popcount [Gate ''x0'' [], Gate ''x1'' [], Gate ''x2'' [], Gate ''x3'' [],
                        Gate ''x4'' []] [Some 0, Some 1, Some 2, Some 3, Some 4]))
        (snd (popcount [Gate ''x0'' [], Gate ''x1'' [], Gate ''x2'' [], Gate ''x3'' [],
                        Gate ''x4'' []] [Some 0, Some 1, Some 2, Some 3, Some 4])) = 3
   \<and> length (snd (popcount [Gate ''x0'' [], Gate ''x1'' [], Gate ''x2'' [], Gate ''x3'' [],
                        Gate ''x4'' []] [Some 0, Some 1, Some 2, Some 3, Some 4])) = 3"
proof -
  let ?C = "[Gate ''x0'' [], Gate ''x1'' [], Gate ''x2'' [], Gate ''x3'' [], Gate ''x4'' []]"
  let ?bits = "[Some 0, Some 1, Some 2, Some 3, Some (4::nat)]"
  let ?env = "\<lambda>i::nat. i \<in> {0, 2, 3}"
  have h: "1 \<le> length ?bits" "\<forall>w \<in> set ?bits. wire_ok ?C w"
    by simp_all
  have v: "out_value ?env (fst (popcount ?C ?bits)) (snd (popcount ?C ?bits))
             = length (filter (wire_value ?env ?C) ?bits)"
    and l: "int (length (snd (popcount ?C ?bits))) = \<lceil>log 2 (real (length ?bits + 1))\<rceil>"
    using popcount_value [OF h, of ?env] by simp_all
  have "length (filter (wire_value ?env ?C) ?bits) = 3"
    by (simp add: wire_value_def wire_values_def wv_def gate_val_def)
  moreover have "\<lceil>log 2 (real (length ?bits + 1))\<rceil> = 3"
  proof -
    have "\<lceil>log (real 2) (real 6)\<rceil> = int 2 + 1"
      by (rule ceiling_log_nat_eq_if) simp_all
    then show ?thesis by simp
  qed
  ultimately show ?thesis using v l by simp
qed

section \<open>Gates on wires of the netlist keep it acyclic\<close>

lemma acyclic_netlist_Nil [simp]: "acyclic_netlist []"
  by (simp add: acyclic_netlist_def)

lemma acyclic_netlist_snoc:
  "acyclic_netlist (C @ [g]) = (acyclic_netlist C \<and> operands_below (length C) g)"
  by (auto simp: acyclic_netlist_def list_all_iff nth_append)

lemma operands_below_ok: "list_all (wire_ok C) ws \<Longrightarrow> operands_below (length C) (Gate nm ws)"
  by (auto simp: operands_below_def list_all_iff wire_ok_def split: option.splits)

lemma operands_below_mono: "operands_below i g \<Longrightarrow> i \<le> j \<Longrightarrow> operands_below j g"
  by (auto simp: operands_below_def list_all_iff split: option.splits)

lemma acyclic_netlist_append:
  "acyclic_netlist C \<Longrightarrow> list_all (\<lambda>g. list_all (wire_ok C) (args g)) D \<Longrightarrow> acyclic_netlist (C @ D)"
proof (induction D rule: rev_induct)
  case Nil
  then show ?case by simp
next
  case (snoc g D)
  have "operands_below (length C) (Gate (name g) (args g))"
    using snoc.prems(2) by (intro operands_below_ok) simp
  then have "operands_below (length C) g" by simp
  then have "operands_below (length (C @ D)) g"
    by (rule operands_below_mono) simp
  moreover have "acyclic_netlist (C @ D)" using snoc by simp
  ultimately show ?case
    using acyclic_netlist_snoc [of "C @ D" g] by simp
qed

lemma halfadder_acyclic:
  "acyclic_netlist C \<Longrightarrow> wire_ok C x \<Longrightarrow> wire_ok C y \<Longrightarrow> acyclic_netlist (fst (halfadder C x y))"
  unfolding halfadder_eq fst_conv by (rule acyclic_netlist_append) simp_all

lemma fulladder_acyclic:
  assumes "acyclic_netlist C" and "wire_ok C x" and "wire_ok C y" and "wire_ok C z"
  shows "acyclic_netlist (fst (fulladder C x y z))"
proof -
  let ?C1 = "C @ [Gate ''xor'' [x, y], Gate ''and'' [x, y]]"
  let ?C2 = "?C1 @ [Gate ''xor'' [Some (length C), z], Gate ''and'' [Some (length C), z]]"
  have 1: "acyclic_netlist ?C1"
    by (rule acyclic_netlist_append) (use assms in simp_all)
  have z: "wire_ok ?C1 z" using assms(4) by (rule wire_ok_append)
  have 2: "acyclic_netlist ?C2"
    by (rule acyclic_netlist_append) (use 1 z in simp_all)
  have "acyclic_netlist (?C2 @ [Gate ''or'' [Some (Suc (length C)), Some (length C + 3)]])"
    by (rule acyclic_netlist_append) (use 2 in simp_all)
  then show ?thesis by (simp add: fulladder_eq)
qed

lemma reduce_acyclic:
  assumes "acyclic_netlist C" and "all_ok C (col # rest)"
  shows "acyclic_netlist (fst (reduce C col rest))"
proof -
  have col: "\<forall>w \<in> set col. wire_ok C w" and ne: "col \<noteq> []"
    using assms(2) by (simp_all add: all_ok_Cons)
  consider "3 \<le> length col" | "length col = 2" | "length col = 1"
    using length_cases [of col] ne by blast
  then show ?thesis
  proof cases
    case 1
    have "col ! 0 \<in> set col" "col ! 1 \<in> set col" "col ! 2 \<in> set col"
      using 1 by (auto intro!: nth_mem)
    then have "wire_ok C (col ! 0)" "wire_ok C (col ! 1)" "wire_ok C (col ! 2)"
      using col by blast+
    then show ?thesis using 1 assms(1) by (simp add: reduce_full fulladder_acyclic)
  next
    case 2
    have "col ! 0 \<in> set col" "col ! 1 \<in> set col"
      using 2 by (auto intro!: nth_mem)
    then have "wire_ok C (col ! 0)" "wire_ok C (col ! 1)"
      using col by blast+
    then show ?thesis using 2 assms(1) by (simp add: reduce_half halfadder_acyclic)
  next
    case 3
    then show ?thesis using assms(1) by (simp add: reduce_def Let_def split: list.splits)
  qed
qed

lemma compress_loop_acyclic:
  assumes "acyclic_netlist C" and "all_ok C bits"
  shows "acyclic_netlist (fst (compress_loop C bits outputs))"
  using assms
proof (induction C bits outputs rule: compress_loop.induct)
  case (1 C outputs)
  then show ?case by simp
next
  case (2 C col rest outputs)
  show ?case
  proof (cases "length col = 1")
    case True
    have "all_ok C rest" using "2.prems"(2) by (simp add: all_ok_Cons)
    then show ?thesis using "2.IH"(1) [OF True "2.prems"(1)] True by simp
  next
    case False
    have a: "acyclic_netlist (fst (reduce C col rest))"
      using "2.prems" by (rule reduce_acyclic)
    have b: "all_ok (fst (reduce C col rest)) (snd (reduce C col rest))"
      using "2.prems"(2) False by (rule reduce_all_ok)
    show ?thesis using "2.IH"(2) [OF False a b] False by simp
  qed
qed

text \<open>Columns of one wire each followed by empty columns: every pass emits a wire or pads
  with \<^verbatim>\<open>undefined\<close>, and no gate is appended.\<close>

fun quiet :: "wire list list \<Rightarrow> bool" where
  "quiet [] = True"
| "quiet (col # rest) = (if length col = 1 then quiet rest else col = [] \<and> (\<forall>c \<in> set rest. c = []))"

lemma quiet_empties: "\<forall>c \<in> set bits. c = [] \<Longrightarrow> quiet bits"
  by (cases bits) simp_all

lemma quiet_carry_into: "\<forall>c \<in> set rest. c = [] \<Longrightarrow> quiet (carry_into w rest)"
  by (cases rest) (simp_all add: carry_into_def quiet_empties)

lemma compress_loop_quiet: "quiet bits \<Longrightarrow> fst (compress_loop C bits outputs) = C"
proof (induction C bits outputs rule: compress_loop.induct)
  case (1 C outputs)
  then show ?case by simp
next
  case (2 C col rest outputs)
  show ?case
  proof (cases "length col = 1")
    case True
    then have "quiet rest" using "2.prems" by simp
    then show ?thesis using "2.IH"(1) [OF True] True by simp
  next
    case False
    then have e: "col = []" and r: "\<forall>c \<in> set rest. c = []"
      using "2.prems" by simp_all
    have red: "reduce C col rest = (C, [None] # carry_into None rest)"
      using e by (rule reduce_empty)
    have "quiet (snd (reduce C col rest))"
      using r by (simp add: red quiet_carry_into)
    then have "fst (compress_loop (fst (reduce C col rest)) (snd (reduce C col rest)) outputs)
                 = fst (reduce C col rest)"
      by (rule "2.IH"(2) [OF False])
    then show ?thesis using False by (simp add: red)
  qed
qed

section \<open>The partial products of the multiplier\<close>

lemma tag_of_ok: "wire_ok C w \<Longrightarrow> \<exists>t. tag_of C w = Some t"
  by (cases w) (simp_all add: tag_of_def wire_ok_def)

lemma mul_cell_eq:
  assumes "wire_ok (net st) (abits st ! i)" and "wire_ok (net st) (bbits st ! (d - i))"
  shows "\<exists>ta tb. mul_cell d i st =
           Inr \<lparr>net = net st @ [Gate ta [abits st ! i], Gate tb [bbits st ! (d - i)],
                                Gate ''and'' [Some (length (net st)), Some (Suc (length (net st)))]],
                abits = (abits st)[i := Some (length (net st))],
                bbits = (bbits st)[d - i := Some (Suc (length (net st)))],
                land = (land st)[d := land st ! d @ [Some (length (net st) + 2)]]\<rparr>"
proof -
  obtain ta where ta: "tag_of (net st) (abits st ! i) = Some ta"
    using tag_of_ok [OF assms(1)] by blast
  have "wire_ok (net st @ [Gate ta [abits st ! i]]) (bbits st ! (d - i))"
    using assms(2) by (rule wire_ok_append)
  then obtain tb where tb: "tag_of (net st @ [Gate ta [abits st ! i]]) (bbits st ! (d - i)) = Some tb"
    using tag_of_ok by blast
  have "mul_cell d i st =
           Inr \<lparr>net = net st @ [Gate ta [abits st ! i], Gate tb [bbits st ! (d - i)],
                                Gate ''and'' [Some (length (net st)), Some (Suc (length (net st)))]],
                abits = (abits st)[i := Some (length (net st))],
                bbits = (bbits st)[d - i := Some (Suc (length (net st)))],
                land = (land st)[d := land st ! d @ [Some (length (net st) + 2)]]\<rparr>"
    by (simp add: mul_cell_def Let_def ta tb gate_eq)
  then show ?thesis by blast
qed

lemma cell_values:
  assumes "wire_in N a" and "wire_in N b"
  shows "wire_value env (N @ [Gate ta [a], Gate tb [b], Gate ''and'' [Some (length N), Some (Suc (length N))]])
           (Some (length N)) = wire_value env N a"
    and "wire_value env (N @ [Gate ta [a], Gate tb [b], Gate ''and'' [Some (length N), Some (Suc (length N))]])
           (Some (Suc (length N))) = wire_value env N b"
    and "wire_value env (N @ [Gate ta [a], Gate tb [b], Gate ''and'' [Some (length N), Some (Suc (length N))]])
           (Some (length N + 2)) = (wire_value env N a \<and> wire_value env N b)"
proof -
  let ?g1 = "Gate ta [a]" and ?g2 = "Gate tb [b]"
  let ?g3 = "Gate ''and'' [Some (length N), Some (Suc (length N))]"
  have v1: "wire_value env (N @ ?g1 # D) (Some (length N)) = wire_value env N a" for D
    by (simp only: wire_value_new gate_val_dup wv_wire_values)
  have "wire_value env ((N @ [?g1]) @ ?g2 # D) (Some (length (N @ [?g1])))
          = wire_value env (N @ [?g1]) b" for D
    by (simp only: wire_value_new gate_val_dup wv_wire_values)
  then have v2: "wire_value env (N @ ?g1 # ?g2 # D) (Some (Suc (length N))) = wire_value env N b" for D
    using wire_value_append [OF assms(2), of env "[?g1]"] by simp
  show "wire_value env (N @ [?g1, ?g2, ?g3]) (Some (length N)) = wire_value env N a"
    by (rule v1)
  show "wire_value env (N @ [?g1, ?g2, ?g3]) (Some (Suc (length N))) = wire_value env N b"
    by (rule v2)
  have "wire_value env ((N @ [?g1, ?g2]) @ ?g3 # []) (Some (length (N @ [?g1, ?g2])))
          = (wire_value env (N @ [?g1, ?g2]) (Some (length N))
              \<and> wire_value env (N @ [?g1, ?g2]) (Some (Suc (length N))))"
    by (simp only: wire_value_new gate_val_binary wv_wire_values)
  then show "wire_value env (N @ [?g1, ?g2, ?g3]) (Some (length N + 2))
          = (wire_value env N a \<and> wire_value env N b)"
    using v1 [of "[?g2]"] v2 [of "[]"] by simp
qed

lemma cols_value_push:
  "d < length bits \<Longrightarrow>
   cols_value f (bits[d := bits ! d @ [w]]) = cols_value f bits + 2 ^ d * of_bool (f w)"
proof (induction bits arbitrary: d)
  case Nil
  then show ?case by simp
next
  case (Cons col rest)
  then show ?case by (cases d) (simp_all add: algebra_simps)
qed

text \<open>The gates the loop appends come in threes: two gates of one operand, the
  duplicates, and the \<^verbatim>\<open>and\<close> of exactly these two.\<close>

fun triples :: "nat \<Rightarrow> gate list \<Rightarrow> bool" where
  "triples p [] = True"
| "triples p (g1 # g2 # g3 # D) =
     (length (args g1) = 1 \<and> length (args g2) = 1
      \<and> g3 = Gate ''and'' [Some p, Some (Suc p)] \<and> triples (p + 3) D)"
| "triples p D = False"

lemma triples_append: "triples p D \<Longrightarrow> triples (p + length D) E \<Longrightarrow> triples p (D @ E)"
proof (induction p D rule: triples.induct)
  case (1 p)
  then show ?case by simp
next
  case (2 p g1 g2 g3 D)
  have "p + length (g1 # g2 # g3 # D) = (p + 3) + length D" by simp
  then have "triples ((p + 3) + length D) E" using "2.prems"(2) by (simp only:)
  moreover have "triples (p + 3) D" using "2.prems"(1) by simp
  ultimately have "triples (p + 3) (D @ E)" by (intro "2.IH")
  then show ?case using "2.prems"(1) by simp
qed simp_all

text \<open>The term of the product that the pair \<open>(i, j)\<close> stands for.\<close>

definition cell_term :: "(nat \<Rightarrow> bool) \<Rightarrow> netlist \<Rightarrow> wire list \<Rightarrow> wire list \<Rightarrow> nat \<times> nat \<Rightarrow> nat" where
  "cell_term env C a0 b0 = (\<lambda>(i, j).
     2 ^ (i + j) * of_bool (wire_value env C (a0 ! i)) * of_bool (wire_value env C (b0 ! j)))"

text \<open>The invariant of the two loops, after the pairs \<open>cs\<close>: the netlist has grown by three
  gates a pair, the working copies hold wires of the same value as the operands' wires,
  and the columns stand for the sum of the terms of the pairs done.\<close>

definition mul_inv ::
  "(nat \<Rightarrow> bool) \<Rightarrow> netlist \<Rightarrow> wire list \<Rightarrow> wire list \<Rightarrow> nat \<Rightarrow> (nat \<times> nat) list \<Rightarrow> mstate \<Rightarrow> bool" where
  "mul_inv env C a0 b0 L cs st =
     ((\<exists>D. net st = C @ D \<and> length D = 3 * length cs \<and> triples (length C) D)
      \<and> length (abits st) = length a0 \<and> length (bbits st) = length b0 \<and> length (land st) = L
      \<and> (\<forall>i < length a0. wire_ok (net st) (abits st ! i)
            \<and> wire_value env (net st) (abits st ! i) = wire_value env C (a0 ! i))
      \<and> (\<forall>j < length b0. wire_ok (net st) (bbits st ! j)
            \<and> wire_value env (net st) (bbits st ! j) = wire_value env C (b0 ! j))
      \<and> (\<forall>col \<in> set (land st). \<forall>w \<in> set col. wire_ok (net st) w)
      \<and> cols_value (wire_value env (net st)) (land st) = (\<Sum>c\<leftarrow>cs. cell_term env C a0 b0 c)
      \<and> (acyclic_netlist C \<longrightarrow> acyclic_netlist (net st)))"

lemma mul_cell_inv:
  assumes inv: "mul_inv env C a0 b0 L cs st"
    and i: "i < length a0" and j: "d - i < length b0" and d: "d < L" and id: "i \<le> d"
  shows "\<exists>st' w. mul_cell d i st = Inr st' \<and> mul_inv env C a0 b0 L (cs @ [(i, d - i)]) st'
           \<and> land st' = (land st)[d := land st ! d @ [w]]"
proof -
  let ?N = "net st" and ?a = "abits st ! i" and ?b = "bbits st ! (d - i)"
  let ?n = "length ?N"
  obtain D where D: "?N = C @ D" "length D = 3 * length cs" "triples (length C) D"
    using inv unfolding mul_inv_def by blast
  have la: "length (abits st) = length a0" and lb: "length (bbits st) = length b0"
    and ll: "length (land st) = L"
    using inv unfolding mul_inv_def by blast+
  have A: "\<And>k. k < length a0 \<Longrightarrow> wire_ok ?N (abits st ! k)
            \<and> wire_value env ?N (abits st ! k) = wire_value env C (a0 ! k)"
    and B: "\<And>k. k < length b0 \<Longrightarrow> wire_ok ?N (bbits st ! k)
            \<and> wire_value env ?N (bbits st ! k) = wire_value env C (b0 ! k)"
    and W: "\<And>col w. col \<in> set (land st) \<Longrightarrow> w \<in> set col \<Longrightarrow> wire_ok ?N w"
    and V: "cols_value (wire_value env ?N) (land st) = (\<Sum>c\<leftarrow>cs. cell_term env C a0 b0 c)"
    and AC: "acyclic_netlist C \<Longrightarrow> acyclic_netlist ?N"
    using inv unfolding mul_inv_def by blast+
  have oka: "wire_ok ?N ?a" and okb: "wire_ok ?N ?b"
    using A [OF i] B [OF j] by simp_all
  obtain ta tb where cell: "mul_cell d i st =
           Inr \<lparr>net = ?N @ [Gate ta [?a], Gate tb [?b], Gate ''and'' [Some ?n, Some (Suc ?n)]],
                abits = (abits st)[i := Some ?n],
                bbits = (bbits st)[d - i := Some (Suc ?n)],
                land = (land st)[d := land st ! d @ [Some (?n + 2)]]\<rparr>"
    using mul_cell_eq [OF oka okb] by blast
  let ?G = "[Gate ta [?a], Gate tb [?b], Gate ''and'' [Some ?n, Some (Suc ?n)]]"
  let ?N' = "?N @ ?G"
  let ?st' = "\<lparr>net = ?N', abits = (abits st)[i := Some ?n],
                bbits = (bbits st)[d - i := Some (Suc ?n)],
                land = (land st)[d := land st ! d @ [Some (?n + 2)]]\<rparr>"
  have ina: "wire_in ?N ?a" and inb: "wire_in ?N ?b"
    using oka okb by (simp_all add: wire_ok_in)
  have va: "wire_value env ?N' (Some ?n) = wire_value env ?N ?a"
    and vb: "wire_value env ?N' (Some (Suc ?n)) = wire_value env ?N ?b"
    and vp: "wire_value env ?N' (Some (?n + 2)) = (wire_value env ?N ?a \<and> wire_value env ?N ?b)"
    using cell_values [OF ina inb, of env ta tb] by simp_all
  have keep: "\<And>w. wire_ok ?N w \<Longrightarrow> wire_ok ?N' w \<and> wire_value env ?N' w = wire_value env ?N w"
    by (simp add: wire_ok_append wire_value_append wire_ok_in)
  have 1: "\<exists>D'. ?N' = C @ D' \<and> length D' = 3 * length (cs @ [(i, d - i)]) \<and> triples (length C) D'"
  proof -
    have "triples (length C + length D) ?G"
      using D(1) by simp
    then have "triples (length C) (D @ ?G)"
      using D(3) by (intro triples_append)
    moreover have "?N' = C @ (D @ ?G)" using D(1) by simp
    moreover have "length (D @ ?G) = 3 * length (cs @ [(i, d - i)])" using D(2) by simp
    ultimately show ?thesis by blast
  qed
  have 2: "\<forall>k < length a0. wire_ok ?N' ((abits st)[i := Some ?n] ! k)
            \<and> wire_value env ?N' ((abits st)[i := Some ?n] ! k) = wire_value env C (a0 ! k)"
  proof (intro allI impI)
    fix k assume k: "k < length a0"
    show "wire_ok ?N' ((abits st)[i := Some ?n] ! k)
            \<and> wire_value env ?N' ((abits st)[i := Some ?n] ! k) = wire_value env C (a0 ! k)"
    proof (cases "k = i")
      case True
      then show ?thesis using va A [OF i] i la by simp
    next
      case False
      then show ?thesis using keep A [OF k] by simp
    qed
  qed
  have 3: "\<forall>k < length b0. wire_ok ?N' ((bbits st)[d - i := Some (Suc ?n)] ! k)
            \<and> wire_value env ?N' ((bbits st)[d - i := Some (Suc ?n)] ! k) = wire_value env C (b0 ! k)"
  proof (intro allI impI)
    fix k assume k: "k < length b0"
    show "wire_ok ?N' ((bbits st)[d - i := Some (Suc ?n)] ! k)
            \<and> wire_value env ?N' ((bbits st)[d - i := Some (Suc ?n)] ! k) = wire_value env C (b0 ! k)"
    proof (cases "k = d - i")
      case True
      then show ?thesis using vb B [OF j] j lb by simp
    next
      case False
      then show ?thesis using keep B [OF k] by simp
    qed
  qed
  have 4: "\<forall>col \<in> set ((land st)[d := land st ! d @ [Some (?n + 2)]]). \<forall>w \<in> set col. wire_ok ?N' w"
  proof (intro ballI)
    fix col w
    assume col: "col \<in> set ((land st)[d := land st ! d @ [Some (?n + 2)]])" and w: "w \<in> set col"
    have "col \<in> insert (land st ! d @ [Some (?n + 2)]) (set (land st))"
      using col set_update_subset_insert by fastforce
    then consider "col = land st ! d @ [Some (?n + 2)]" | "col \<in> set (land st)" by blast
    then show "wire_ok ?N' w"
    proof cases
      case 1
      then have "w \<in> set (land st ! d) \<or> w = Some (?n + 2)" using w by auto
      moreover have "land st ! d \<in> set (land st)" using d ll by simp
      ultimately show ?thesis using W keep by auto
    next
      case 2
      then show ?thesis using W [OF 2 w] keep by simp
    qed
  qed
  have 5: "cols_value (wire_value env ?N') ((land st)[d := land st ! d @ [Some (?n + 2)]])
             = (\<Sum>c\<leftarrow>cs @ [(i, d - i)]. cell_term env C a0 b0 c)"
  proof -
    have "wires_in ?N (land st)"
      using W by (auto simp: wires_in_def wire_ok_in)
    then have same: "cols_value (wire_value env ?N') (land st) = cols_value (wire_value env ?N) (land st)"
      by (rule cols_value_append)
    have "cols_value (wire_value env ?N') ((land st)[d := land st ! d @ [Some (?n + 2)]])
            = cols_value (wire_value env ?N') (land st)
                + 2 ^ d * of_bool (wire_value env ?N' (Some (?n + 2)))"
      using d ll by (intro cols_value_push) simp
    also have "\<dots> = (\<Sum>c\<leftarrow>cs. cell_term env C a0 b0 c)
                + 2 ^ d * of_bool (wire_value env C (a0 ! i) \<and> wire_value env C (b0 ! (d - i)))"
      using A [OF i] B [OF j] by (simp only: same V vp)
    also have "\<dots> = (\<Sum>c\<leftarrow>cs @ [(i, d - i)]. cell_term env C a0 b0 c)"
      using id by (simp add: cell_term_def of_bool_conj)
    finally show ?thesis .
  qed
  have 6: "acyclic_netlist C \<longrightarrow> acyclic_netlist ?N'"
  proof
    assume "acyclic_netlist C"
    then have "acyclic_netlist ?N" by (rule AC)
    then have "acyclic_netlist (?N @ [Gate ta [?a], Gate tb [?b]])"
      by (rule acyclic_netlist_append) (use oka okb in simp_all)
    then have "acyclic_netlist
        ((?N @ [Gate ta [?a], Gate tb [?b]]) @ [Gate ''and'' [Some ?n, Some (Suc ?n)]])"
      by (rule acyclic_netlist_append) simp_all
    then show "acyclic_netlist ?N'" by simp
  qed
  have "mul_inv env C a0 b0 L (cs @ [(i, d - i)]) ?st'"
    unfolding mul_inv_def using 1 2 3 4 5 6 la lb ll by simp
  moreover have "land ?st' = (land st)[d := land st ! d @ [Some (?n + 2)]]"
    by simp
  ultimately have "mul_cell d i st = Inr ?st' \<and> mul_inv env C a0 b0 L (cs @ [(i, d - i)]) ?st'
           \<and> land ?st' = (land st)[d := land st ! d @ [Some (?n + 2)]]"
    using cell by simp
  then show ?thesis by (intro exI)
qed

lemma mul_row_inv:
  assumes "mul_inv env C a0 b0 L cs st" and "d < L"
    and "\<forall>i \<in> set is. i < length a0 \<and> i \<le> d \<and> d - i < length b0"
  shows "\<exists>st'. mul_row d is st = Inr st'
           \<and> mul_inv env C a0 b0 L (cs @ map (\<lambda>i. (i, d - i)) is) st'
           \<and> (\<forall>k < L. length (land st' ! k) = length (land st ! k) + (if k = d then length is else 0))"
  using assms
proof (induction "is" arbitrary: st cs)
  case Nil
  then show ?case by simp
next
  case (Cons i "is")
  have i: "i < length a0" "i \<le> d" "d - i < length b0"
    using Cons.prems(3) by simp_all
  obtain st1 w where c: "mul_cell d i st = Inr st1"
    and inv1: "mul_inv env C a0 b0 L (cs @ [(i, d - i)]) st1"
    and l1: "land st1 = (land st)[d := land st ! d @ [w]]"
    using mul_cell_inv [OF Cons.prems(1) i(1) i(3) Cons.prems(2) i(2)] by blast
  have rest: "\<forall>i \<in> set is. i < length a0 \<and> i \<le> d \<and> d - i < length b0"
    using Cons.prems(3) by simp
  obtain st' where r: "mul_row d is st1 = Inr st'"
    and inv': "mul_inv env C a0 b0 L ((cs @ [(i, d - i)]) @ map (\<lambda>i. (i, d - i)) is) st'"
    and l': "\<forall>k < L. length (land st' ! k) = length (land st1 ! k) + (if k = d then length is else 0)"
    using Cons.IH [OF inv1 Cons.prems(2) rest] by blast
  have ll: "length (land st) = L"
    using Cons.prems(1) unfolding mul_inv_def by blast
  have "\<forall>k < L. length (land st' ! k) = length (land st ! k) + (if k = d then length (i # is) else 0)"
    using l' l1 ll Cons.prems(2) by (simp add: nth_list_update)
  moreover have "mul_row d (i # is) st = Inr st'" using c r by simp
  moreover have "mul_inv env C a0 b0 L (cs @ map (\<lambda>i. (i, d - i)) (i # is)) st'"
    using inv' by simp
  ultimately show ?case by blast
qed

text \<open>The pairs of the diagonals \<open>ds\<close>, in the order the loops visit them.\<close>

definition diag_cells :: "nat \<Rightarrow> nat \<Rightarrow> nat list \<Rightarrow> (nat \<times> nat) list" where
  "diag_cells na nb ds =
     concat (map (\<lambda>d. map (\<lambda>i. (i, d - i)) [d + 1 - nb ..< min na (d + 1)]) ds)"

lemma diag_cells_Cons:
  "diag_cells na nb (d # ds)
     = map (\<lambda>i. (i, d - i)) [d + 1 - nb ..< min na (d + 1)] @ diag_cells na nb ds"
  by (simp add: diag_cells_def)

lemma diag_range:
  "i \<in> set [d + 1 - nb ..< min na (d + 1)] \<Longrightarrow> i < na \<and> i \<le> d \<and> d - i < nb"
  by auto

lemma mul_diags_inv:
  assumes "mul_inv env C a0 b0 L cs st" and "\<forall>d \<in> set ds. d < L" and "distinct ds"
    and "length a0 = na" and "length b0 = nb"
  shows "\<exists>st'. mul_diags na nb ds st = Inr st'
           \<and> mul_inv env C a0 b0 L (cs @ diag_cells na nb ds) st'
           \<and> (\<forall>k < L. length (land st' ! k) = length (land st ! k)
                 + (if k \<in> set ds then min na (k + 1) - (k + 1 - nb) else 0))"
  using assms(1,2,3)
proof (induction ds arbitrary: st cs)
  case Nil
  then show ?case by (simp add: diag_cells_def)
next
  case (Cons d ds)
  have d: "d < L" and ds: "\<forall>d \<in> set ds. d < L" and nd: "d \<notin> set ds" and dist: "distinct ds"
    using Cons.prems(2,3) by simp_all
  have rng: "\<forall>i \<in> set [d + 1 - nb ..< min na (d + 1)]. i < length a0 \<and> i \<le> d \<and> d - i < length b0"
    using diag_range [of _ d nb na] assms(4,5) by blast
  obtain st1 where r: "mul_row d [d + 1 - nb ..< min na (d + 1)] st = Inr st1"
    and inv1: "mul_inv env C a0 b0 L (cs @ map (\<lambda>i. (i, d - i)) [d + 1 - nb ..< min na (d + 1)]) st1"
    and l1: "\<forall>k < L. length (land st1 ! k) = length (land st ! k)
               + (if k = d then length [d + 1 - nb ..< min na (d + 1)] else 0)"
    using mul_row_inv [OF Cons.prems(1) d rng] by blast
  obtain st' where m: "mul_diags na nb ds st1 = Inr st'"
    and inv': "mul_inv env C a0 b0 L
                 ((cs @ map (\<lambda>i. (i, d - i)) [d + 1 - nb ..< min na (d + 1)]) @ diag_cells na nb ds) st'"
    and l': "\<forall>k < L. length (land st' ! k) = length (land st1 ! k)
               + (if k \<in> set ds then min na (k + 1) - (k + 1 - nb) else 0)"
    using Cons.IH [OF inv1 ds dist] by blast
  have "mul_diags na nb (d # ds) st = Inr st'" using r m by simp
  moreover have "mul_inv env C a0 b0 L (cs @ diag_cells na nb (d # ds)) st'"
    using inv' by (simp add: diag_cells_Cons)
  moreover have "\<forall>k < L. length (land st' ! k) = length (land st ! k)
                 + (if k \<in> set (d # ds) then min na (k + 1) - (k + 1 - nb) else 0)"
    using l1 l' nd by auto
  ultimately show ?case by blast
qed

subsection \<open>The sum over the diagonals is the sum over all pairs\<close>

lemma diag_cells_sum_list:
  fixes f :: "nat \<times> nat \<Rightarrow> nat"
  shows "(\<Sum>c\<leftarrow>diag_cells na nb ds. f c)
           = (\<Sum>d\<leftarrow>ds. \<Sum>i\<leftarrow>[d + 1 - nb ..< min na (d + 1)]. f (i, d - i))"
  by (induction ds) (simp_all add: diag_cells_def comp_def)

lemma diag_sum:
  fixes f :: "nat \<times> nat \<Rightarrow> nat"
  shows "(\<Sum>c\<leftarrow>diag_cells na nb [0..<na + nb - 1]. f c) = (\<Sum>i<na. \<Sum>j<nb. f (i, j))"
proof -
  let ?lo = "\<lambda>d. d + 1 - nb" and ?hi = "\<lambda>d. min na (d + 1)"
  have "(\<Sum>c\<leftarrow>diag_cells na nb [0..<na + nb - 1]. f c)
          = (\<Sum>d\<leftarrow>[0..<na + nb - 1]. \<Sum>i\<leftarrow>[?lo d..<?hi d]. f (i, d - i))"
    by (rule diag_cells_sum_list)
  also have "\<dots> = (\<Sum>d \<in> {0..<na + nb - 1}. \<Sum>i \<in> {?lo d..<?hi d}. f (i, d - i))"
    by (simp add: interv_sum_list_conv_sum_set_nat del: upt_Suc)
  also have "\<dots> = (\<Sum>(d, i) \<in> (SIGMA d:{0..<na + nb - 1}. {?lo d..<?hi d}). f (i, d - i))"
    by (rule sum.Sigma) simp_all
  also have "\<dots> = (\<Sum>(i, j) \<in> {..<na} \<times> {..<nb}. f (i, j))"
    by (rule sum.reindex_bij_witness [where i = "\<lambda>(i, j). (i + j, i)" and j = "\<lambda>(d, i). (i, d - i)"])
      auto
  also have "\<dots> = (\<Sum>i<na. \<Sum>j<nb. f (i, j))"
    by (simp add: sum.cartesian_product)
  finally show ?thesis .
qed

lemma diag_cells_length: "length (diag_cells na nb [0..<na + nb - 1]) = na * nb"
proof -
  have "length (diag_cells na nb [0..<na + nb - 1])
          = (\<Sum>c\<leftarrow>diag_cells na nb [0..<na + nb - 1]. 1)"
    by (simp add: sum_list_triv)
  also have "\<dots> = (\<Sum>i<na. \<Sum>j<nb. 1)"
    by (rule diag_sum)
  finally show ?thesis by simp
qed

lemma bits_value_sum: "bits_value bs = (\<Sum>i<length bs. of_bool (bs ! i) * 2 ^ i)"
proof (induction bs)
  case Nil
  then show ?case by simp
next
  case (Cons b bs)
  have "(\<Sum>i<Suc (length bs). of_bool ((b # bs) ! i) * 2 ^ i :: nat)
          = of_bool ((b # bs) ! 0) * 2 ^ 0 + (\<Sum>i<length bs. of_bool ((b # bs) ! Suc i) * 2 ^ Suc i)"
    by (rule sum.lessThan_Suc_shift)
  also have "\<dots> = of_bool b + (\<Sum>i<length bs. 2 * (of_bool (bs ! i) * 2 ^ i))"
    by (simp add: mult.left_commute)
  also have "\<dots> = of_bool b + 2 * (\<Sum>i<length bs. of_bool (bs ! i) * 2 ^ i)"
    by (simp only: sum_distrib_left)
  finally show ?case using Cons by simp
qed

lemma product_sum:
  "(\<Sum>c\<leftarrow>diag_cells (length a0) (length b0) [0..<length a0 + length b0 - 1]. cell_term env C a0 b0 c)
     = out_value env C a0 * out_value env C b0"
proof -
  let ?A = "\<lambda>i. of_bool (wire_value env C (a0 ! i)) :: nat"
  let ?B = "\<lambda>j. of_bool (wire_value env C (b0 ! j)) :: nat"
  have "(\<Sum>c\<leftarrow>diag_cells (length a0) (length b0) [0..<length a0 + length b0 - 1]. cell_term env C a0 b0 c)
          = (\<Sum>i<length a0. \<Sum>j<length b0. cell_term env C a0 b0 (i, j))"
    by (rule diag_sum)
  also have "\<dots> = (\<Sum>i<length a0. \<Sum>j<length b0. (?A i * 2 ^ i) * (?B j * 2 ^ j))"
  proof -
    have "cell_term env C a0 b0 (i, j) = (?A i * 2 ^ i) * (?B j * 2 ^ j)" for i j
      unfolding cell_term_def prod.case power_add by (rule mult.commute [THEN trans]) (simp only: mult_ac)
    then show ?thesis by (simp only:)
  qed
  also have "\<dots> = (\<Sum>i<length a0. ?A i * 2 ^ i) * (\<Sum>j<length b0. ?B j * 2 ^ j)"
    by (simp only: sum_product)
  also have "\<dots> = out_value env C a0 * out_value env C b0"
    by (simp add: out_value_def bits_value_sum)
  finally show ?thesis .
qed

section \<open>The multiplier\<close>

lemma cols_value_replicate_Nil [simp]: "cols_value f (replicate L []) = 0"
  by (induction L) simp_all

lemma mul_inv_init:
  assumes "\<forall>w \<in> set a0. wire_ok C w" and "\<forall>w \<in> set b0. wire_ok C w"
  shows "mul_inv env C a0 b0 L [] \<lparr>net = C, abits = a0, bbits = b0, land = replicate L []\<rparr>"
proof -
  have "\<exists>D. C = C @ D \<and> length D = 3 * length ([] :: (nat \<times> nat) list) \<and> triples (length C) D"
    by (rule exI [of _ "[]"]) simp
  then show ?thesis
    using assms unfolding mul_inv_def by simp
qed

text \<open>The two loops end without an exception on wires of the netlist; what they leave is
  described by the invariant for all the pairs, and column \<open>k\<close> holds one wire for each
  pair of the diagonal \<open>k\<close>.\<close>

lemma multiplier_run:
  assumes "\<forall>w \<in> set a0. wire_ok C w" and "\<forall>w \<in> set b0. wire_ok C w"
  defines "L \<equiv> length a0 + length b0 - 1"
  shows "\<exists>st. mul_inv env C a0 b0 L (diag_cells (length a0) (length b0) [0..<L]) st
           \<and> (\<forall>k < L. length (land st ! k) = min (length a0) (k + 1) - (k + 1 - length b0))
           \<and> multiplier C a0 b0
               = (fst (compress (net st) (land st)), Inr (snd (compress (net st) (land st))))"
proof -
  let ?st0 = "\<lparr>net = C, abits = a0, bbits = b0, land = replicate L []\<rparr>"
  have inv0: "mul_inv env C a0 b0 L [] ?st0"
    using assms(1,2) by (rule mul_inv_init)
  obtain st where run: "mul_diags (length a0) (length b0) [0..<L] ?st0 = Inr st"
    and inv: "mul_inv env C a0 b0 L ([] @ diag_cells (length a0) (length b0) [0..<L]) st"
    and len: "\<forall>k < L. length (land st ! k) = length (land ?st0 ! k)
                 + (if k \<in> set [0..<L] then min (length a0) (k + 1) - (k + 1 - length b0) else 0)"
    using mul_diags_inv [OF inv0, of "[0..<L]" "length a0" "length b0"] by auto
  have "multiplier C a0 b0
          = (fst (compress (net st) (land st)), Inr (snd (compress (net st) (land st))))"
    using run unfolding multiplier_def Let_def L_def by (simp add: case_prod_unfold)
  moreover have "\<forall>k < L. length (land st ! k) = min (length a0) (k + 1) - (k + 1 - length b0)"
    using len by simp
  ultimately show ?thesis using inv by auto
qed

lemma multiplier_columns_nonempty:
  assumes "1 \<le> na" and "1 \<le> nb" and "length bits = na + nb - 1"
    and "\<forall>k < na + nb - 1. length (bits ! k) = min na (k + 1) - (k + 1 - nb)"
  shows "[] \<notin> set bits"
proof
  assume "[] \<in> set bits"
  then obtain k where k: "k < length bits" "bits ! k = []"
    by (auto simp: in_set_conv_nth)
  then have "min na (k + 1) - (k + 1 - nb) = 0"
    using assms(3,4) by (metis list.size(3))
  then show False using assms(1,2,3) k(1) by auto
qed

text \<open>
  C3. For wire lists \<open>bits_a\<close> and \<open>bits_b\<close> of lengths \<open>n, m \<ge> 1\<close>, wires of the netlist,
  and every assignment \<open>env\<close>: \<open>multiplier\<close> ends without an exception and its output bits,
  wires of the grown netlist, spell the product of the numbers \<open>bits_a\<close> and \<open>bits_b\<close>
  spell. The netlist grows first by the gates \<open>D\<close> of the partial products, three gates
  for each of the \<open>n * m\<close> pairs, two duplicates of one operand each followed by the
  \<^verbatim>\<open>and\<close> of these two, and then by the gates \<open>E\<close> of the compressor, run on
  \<open>n + m - 1\<close> columns.
\<close>

theorem multiplier_value:
  assumes "1 \<le> length bits_a" and "1 \<le> length bits_b"
    and "\<forall>w \<in> set bits_a. wire_ok C w" and "\<forall>w \<in> set bits_b. wire_ok C w"
  shows "\<exists>outputs D E columns.
           multiplier C bits_a bits_b = (C @ D @ E, Inr outputs)
           \<and> out_value env (C @ D @ E) outputs = out_value env C bits_a * out_value env C bits_b
           \<and> list_all (wire_ok (C @ D @ E)) outputs
           \<and> length D = 3 * (length bits_a * length bits_b)
           \<and> triples (length C) D
           \<and> length columns = length bits_a + length bits_b - 1
           \<and> compress (C @ D) columns = (C @ D @ E, outputs)"
proof -
  let ?na = "length bits_a" and ?nb = "length bits_b"
  let ?L = "?na + ?nb - 1"
  let ?cs = "diag_cells ?na ?nb [0..<?L]"
  obtain st where inv: "mul_inv env C bits_a bits_b ?L ?cs st"
    and len: "\<forall>k < ?L. length (land st ! k) = min ?na (k + 1) - (k + 1 - ?nb)"
    and run: "multiplier C bits_a bits_b
                = (fst (compress (net st) (land st)), Inr (snd (compress (net st) (land st))))"
    using multiplier_run [OF assms(3,4), of env] by blast
  obtain D where D: "net st = C @ D" "length D = 3 * length ?cs" "triples (length C) D"
    using inv unfolding mul_inv_def by blast
  have ll: "length (land st) = ?L"
    and W: "\<forall>col \<in> set (land st). \<forall>w \<in> set col. wire_ok (net st) w"
    and V: "cols_value (wire_value env (net st)) (land st) = (\<Sum>c\<leftarrow>?cs. cell_term env C bits_a bits_b c)"
    using inv unfolding mul_inv_def by blast+
  obtain E where E: "fst (compress (net st) (land st)) = net st @ E"
    using compress_loop_extends [of "net st" "land st" "[]"] unfolding compress_def by blast
  let ?outs = "snd (compress (net st) (land st))"
  have ne: "[] \<notin> set (land st)"
    using assms(1,2) ll len by (rule multiplier_columns_nonempty)
  have "out_value env (fst (compress (net st) (land st))) ?outs
          = cols_value (wire_value env (net st)) (land st)"
    by (rule compress_loop_value_total(1) [OF W])
  then have "out_value env (net st @ E) ?outs = out_value env C bits_a * out_value env C bits_b"
    by (simp only: E V product_sum)
  moreover have NE: "net st @ E = C @ D @ E" by (simp add: D(1))
  ultimately have val: "out_value env (C @ D @ E) ?outs
                          = out_value env C bits_a * out_value env C bits_b"
    by (simp only:)
  have "\<forall>w \<in> set ?outs. wire_ok (fst (compress (net st) (land st))) w"
    using ne by (rule compress_loop_value_total(3) [OF W])
  then have ok: "list_all (wire_ok (C @ D @ E)) ?outs"
    by (simp only: E NE list_all_iff)
  have 1: "multiplier C bits_a bits_b = (C @ D @ E, Inr ?outs)"
    using run by (simp only: E NE)
  have 2: "length D = 3 * (?na * ?nb)"
    using D(2) by (simp only: diag_cells_length)
  have "compress (net st) (land st) = (net st @ E, ?outs)"
    using E by (metis prod.collapse)
  then have 3: "compress (C @ D) (land st) = (C @ D @ E, ?outs)"
    using NE D(1) by metis
  show ?thesis
    using 1 val ok 2 D(3) ll 3 by blast
qed

theorem multiplier_value_witness:
  "1 \<le> length [Some 0, Some (1::nat)] \<and> 1 \<le> length [Some 2, Some (3::nat)]
   \<and> list_all (wire_ok [Gate ''a0'' [], Gate ''a1'' [], Gate ''b0'' [], Gate ''b1'' []])
        [Some 0, Some 1]
   \<and> list_all (wire_ok [Gate ''a0'' [], Gate ''a1'' [], Gate ''b0'' [], Gate ''b1'' []])
        [Some 2, Some 3]
   \<and> (\<exists>outputs D E.
         multiplier [Gate ''a0'' [], Gate ''a1'' [], Gate ''b0'' [], Gate ''b1'' []]
           [Some 0, Some 1] [Some 2, Some 3]
           = ([Gate ''a0'' [], Gate ''a1'' [], Gate ''b0'' [], Gate ''b1'' []] @ D @ E, Inr outputs)
         \<and> out_value (\<lambda>i. True)
              ([Gate ''a0'' [], Gate ''a1'' [], Gate ''b0'' [], Gate ''b1'' []] @ D @ E) outputs
             = 3 * 3
         \<and> length D = 12)"
proof -
  let ?C = "[Gate ''a0'' [], Gate ''a1'' [], Gate ''b0'' [], Gate ''b1'' []]"
  let ?a = "[Some 0, Some (1::nat)]" and ?b = "[Some 2, Some (3::nat)]"
  let ?env = "\<lambda>i::nat. True"
  have h: "1 \<le> length ?a" "1 \<le> length ?b" "\<forall>w \<in> set ?a. wire_ok ?C w" "\<forall>w \<in> set ?b. wire_ok ?C w"
    by simp_all
  obtain outputs D E where o: "multiplier ?C ?a ?b = (?C @ D @ E, Inr outputs)"
    and v: "out_value ?env (?C @ D @ E) outputs = out_value ?env ?C ?a * out_value ?env ?C ?b"
    and l: "length D = 3 * (length ?a * length ?b)"
    using multiplier_value [OF h, of ?env] by blast
  have "out_value ?env ?C ?a = 3" and "out_value ?env ?C ?b = 3"
    by (simp_all add: out_value_def wire_value_def wire_values_def wv_def gate_val_def)
  then have "out_value ?env (?C @ D @ E) outputs = 3 * 3" and "length D = 12"
    using v l by simp_all
  then show ?thesis using o by auto
qed

lemma multiplier_acyclic:
  assumes "acyclic_netlist C" and "\<forall>w \<in> set a0. wire_ok C w" and "\<forall>w \<in> set b0. wire_ok C w"
  shows "acyclic_netlist (fst (multiplier C a0 b0))"
proof -
  let ?na = "length a0" and ?nb = "length b0"
  let ?L = "?na + ?nb - 1"
  obtain st where inv: "mul_inv (\<lambda>i. True) C a0 b0 ?L (diag_cells ?na ?nb [0..<?L]) st"
    and len: "\<forall>k < ?L. length (land st ! k) = min ?na (k + 1) - (k + 1 - ?nb)"
    and run: "multiplier C a0 b0
                = (fst (compress (net st) (land st)), Inr (snd (compress (net st) (land st))))"
    using multiplier_run [OF assms(2,3), of "\<lambda>i. True"] by blast
  have ll: "length (land st) = ?L"
    and W: "\<forall>col \<in> set (land st). \<forall>w \<in> set col. wire_ok (net st) w"
    and AC: "acyclic_netlist (net st)"
    using inv assms(1) unfolding mul_inv_def by blast+
  have "acyclic_netlist (fst (compress (net st) (land st)))"
  proof (cases "1 \<le> ?na \<and> 1 \<le> ?nb")
    case True
    then have "[] \<notin> set (land st)"
      using ll len by (intro multiplier_columns_nonempty [of ?na ?nb]) simp_all
    then have "all_ok (net st) (land st)"
      using W by (auto simp: all_ok_def)
    then show ?thesis
      unfolding compress_def using AC by (intro compress_loop_acyclic)
  next
    case False
    have "\<forall>c \<in> set (land st). c = []"
    proof
      fix c assume "c \<in> set (land st)"
      then obtain k where k: "k < ?L" "land st ! k = c"
        using ll by (auto simp: in_set_conv_nth)
      have "min ?na (k + 1) - (k + 1 - ?nb) = 0"
        using False by auto
      then show "c = []" using len k by auto
    qed
    then have "quiet (land st)" by (rule quiet_empties)
    then have "fst (compress (net st) (land st)) = net st"
      unfolding compress_def by (rule compress_loop_quiet)
    then show ?thesis using AC by simp
  qed
  then show ?thesis by (simp add: run)
qed

section \<open>Netlists built by the public operators are acyclic\<close>

lemma inputs_from_eq:
  "inputs_from C nm is
     = (C @ map (\<lambda>i. Gate (nm @ string_of_nat i) []) is, [length C..<length C + length is])"
proof (induction "is" arbitrary: C)
  case Nil
  then show ?case by simp
next
  case (Cons i "is")
  have u: "[length C..<Suc (length C + length is)]
             = length C # [Suc (length C)..<Suc (length C + length is)]"
    by (rule upt_conv_Cons) simp
  let ?C1 = "C @ [Gate (nm @ string_of_nat i) []]"
  have "inputs_from C nm (i # is)
          = (fst (inputs_from ?C1 nm is), length C # snd (inputs_from ?C1 nm is))"
    by (simp add: gate_eq case_prod_unfold Let_def)
  also have "\<dots> = (?C1 @ map (\<lambda>i. Gate (nm @ string_of_nat i) []) is,
                     length C # [length ?C1..<length ?C1 + length is])"
    by (simp only: Cons.IH fst_conv snd_conv)
  also have "\<dots> = (C @ map (\<lambda>i. Gate (nm @ string_of_nat i) []) (i # is),
                     [length C..<length C + length (i # is)])"
    by (simp add: u del: upt_Suc)
  finally show ?case .
qed

lemma inputs_eq:
  "inputs C nm n = (C @ map (\<lambda>i. Gate (nm @ string_of_nat i) []) [0..<n], [length C..<length C + n])"
  by (simp add: inputs_def inputs_from_eq)

lemma inputs_acyclic: "acyclic_netlist C \<Longrightarrow> acyclic_netlist (fst (inputs C nm n))"
  unfolding inputs_eq fst_conv by (rule acyclic_netlist_append) (simp_all add: list_all_iff)

lemma adder_acyclic:
  assumes "acyclic_netlist C" and "list_all (wire_ok C) bits_a" and "list_all (wire_ok C) bits_b"
  shows "acyclic_netlist (fst (adder C bits_a bits_b))"
proof (cases "length bits_a = length bits_b")
  case True
  let ?land = "map (\<lambda>(x, y). [x, y]) (zip bits_a bits_b)"
  have cols: "map (\<lambda>i. [bits_a ! i, bits_b ! i]) [0..<length bits_a] = ?land"
    using True by (rule adder_columns)
  have run: "fst (adder C bits_a bits_b) = fst (compress C ?land)"
    unfolding adder_def Let_def cols using True by (simp add: case_prod_unfold)
  have "all_ok C ?land"
    using assms(2,3) by (auto simp: all_ok_def list_all_iff dest: set_zip_leftD set_zip_rightD)
  then have "acyclic_netlist (fst (compress C ?land))"
    unfolding compress_def using assms(1) by (intro compress_loop_acyclic)
  then show ?thesis by (simp only: run)
next
  case False
  then show ?thesis using assms(1) by (simp add: adder_def)
qed

lemma popcount_acyclic:
  assumes "acyclic_netlist C" and "list_all (wire_ok C) bits"
  shows "acyclic_netlist (fst (popcount C bits))"
proof (cases "bits = []")
  case True
  have "quiet [bits]" using True by simp
  then have "fst (compress_loop C [bits] []) = C" by (rule compress_loop_quiet)
  then show ?thesis using assms(1) by (simp add: popcount_def compress_def)
next
  case False
  then have "all_ok C [bits]"
    using assms(2) by (simp add: all_ok_def list_all_iff)
  then show ?thesis
    unfolding popcount_def compress_def using assms(1) by (intro compress_loop_acyclic)
qed

lemma run_call_acyclic: "acyclic_netlist C \<Longrightarrow> call_ok C c \<Longrightarrow> acyclic_netlist (run_call C c)"
  by (cases c)
    (simp_all add: inputs_acyclic adder_acyclic popcount_acyclic multiplier_acyclic list_all_iff)

lemma run_calls_acyclic: "acyclic_netlist C \<Longrightarrow> calls_ok C cs \<Longrightarrow> acyclic_netlist (run_calls C cs)"
  by (induction cs arbitrary: C) (simp_all add: run_call_acyclic)

lemma acyclic_netlist_iff:
  "acyclic_netlist C = (\<forall>i < length C. \<forall>w \<in> set (args (C ! i)). \<exists>k. w = Some k \<and> k < i)"
proof -
  have "(case w of None \<Rightarrow> False | Some k \<Rightarrow> k < i) = (\<exists>k. w = Some k \<and> k < i)" for w :: wire and i
    by (cases w) simp_all
  then show ?thesis
    by (auto simp add: acyclic_netlist_def operands_below_def list_all_iff)
qed

text \<open>
  Start from the empty netlist and run a sequence of calls of \<open>inputs\<close>, \<open>adder\<close>,
  \<open>popcount\<close> and \<open>multiplier\<close> in which each call is given indices of the netlist as
  it stands at the call. In the netlist reached, every operand of every gate is an index
  strictly below the gate's own index.
\<close>

theorem operators_acyclic:
  assumes "calls_ok [] cs"
  shows "acyclic_netlist (run_calls [] cs)
       \<and> (\<forall>i < length (run_calls [] cs). \<forall>w \<in> set (args (run_calls [] cs ! i)).
             \<exists>k. w = Some k \<and> k < i)"
  using run_calls_acyclic [OF acyclic_netlist_Nil assms] by (simp add: acyclic_netlist_iff)

theorem operators_acyclic_witness:
  "calls_ok [] [Inputs ''a'' 2, Inputs ''b'' 2, Multiplier [Some 0, Some 1] [Some 2, Some 3]]
   \<and> acyclic_netlist
       (run_calls [] [Inputs ''a'' 2, Inputs ''b'' 2, Multiplier [Some 0, Some 1] [Some 2, Some 3]])"
proof -
  have ok: "calls_ok [] [Inputs ''a'' 2, Inputs ''b'' 2, Multiplier [Some 0, Some 1] [Some 2, Some 3]]"
    by (simp add: inputs_eq)
  show ?thesis using ok operators_acyclic [OF ok] by blast
qed

subsection \<open>What an operator returns need not be indices\<close>

text \<open>
  C6. Not every sequence of calls of the public operators from the empty netlist leaves
  every operand of every gate an index below the gate's own index. \<open>popcount\<close> of no
  wires runs the compressor on one empty column and returns two \<^verbatim>\<open>undefined\<close>
  outputs; \<open>popcount\<close> of these two outputs, the first call's own result, appends a
  half adder whose gates have \<^verbatim>\<open>undefined\<close> for both operands, and no operand of
  theirs is an index below the gate's.
\<close>

theorem undefined_outputs_break_acyclicity:
  "snd (popcount [] []) = [None, None]
   \<and> run_calls [] [Popcount [], Popcount (snd (popcount [] []))]
       = [Gate ''xor'' [None, None], Gate ''and'' [None, None]]
   \<and> \<not> acyclic_netlist (run_calls [] [Popcount [], Popcount (snd (popcount [] []))])"
proof -
  have p0: "popcount [] [] = ([], [None, None])"
    by (simp add: popcount_def compress_def reduce_empty carry_into_def)
  have p1: "popcount [] [None, None]
              = ([Gate ''xor'' [None, None], Gate ''and'' [None, None]], [Some 0, Some 1])"
    by (simp add: popcount_def compress_def reduce_half halfadder_eq carry_into_def)
  have "\<not> acyclic_netlist [Gate ''xor'' [None, None], Gate ''and'' [None, None]]"
    by (simp add: acyclic_netlist_def operands_below_def)
  then show ?thesis by (simp add: p0 p1)
qed

section \<open>The multiplier leaves the arrays of its caller alone\<close>

text \<open>The state of the loops without the store: the two working arrays by value.\<close>

definition unstore :: "nat \<Rightarrow> hstate \<Rightarrow> mstate" where
  "unstore n hs = \<lparr>net = hnet hs, abits = heap hs ! n, bbits = heap hs ! Suc n, land = hland hs\<rparr>"

text \<open>What a step may do to the store: the arrays below address \<open>n\<close> stay as they are
  and no array is added.\<close>

definition frame :: "nat \<Rightarrow> store \<Rightarrow> store \<Rightarrow> bool" where
  "frame n h h' = (length h' = length h \<and> take n h' = take n h)"

lemma frame_refl [simp]: "frame n h h"
  by (simp add: frame_def)

lemma frame_trans: "frame n h h' \<Longrightarrow> frame n h' h'' \<Longrightarrow> frame n h h''"
  by (simp add: frame_def)

lemma frame_update: "n \<le> q \<Longrightarrow> frame n h (h[q := x])"
  by (simp add: frame_def)

lemma mul_cell_h_sim:
  assumes "length (heap hs) = n + 2"
  shows "case mul_cell_h n (Suc n) d i hs of
           Inl (e, h', C') \<Rightarrow> mul_cell d i (unstore n hs) = Inl (e, C') \<and> frame n (heap hs) h'
         | Inr hs' \<Rightarrow> mul_cell d i (unstore n hs) = Inr (unstore n hs') \<and> frame n (heap hs) (heap hs')"
proof (cases "tag_of (hnet hs) (heap hs ! n ! i)")
  case None
  then show ?thesis
    by (simp add: mul_cell_h_def mul_cell_def unstore_def Let_def)
next
  case (Some ta)
  note ta = Some
  let ?C1 = "hnet hs @ [Gate ta [heap hs ! n ! i]]"
  show ?thesis
  proof (cases "tag_of ?C1 (heap hs ! Suc n ! (d - i))")
    case None
    then show ?thesis
      using ta by (simp add: mul_cell_h_def mul_cell_def unstore_def Let_def gate_eq frame_update)
  next
    case (Some tb)
    have "frame n (heap hs)
            ((heap hs)[n := (heap hs ! n)[i := Some (length (hnet hs))],
                       Suc n := (heap hs ! Suc n)[d - i := Some (Suc (length (hnet hs)))]])"
      by (simp add: frame_def)
    then show ?thesis
      using ta Some assms
      by (simp add: mul_cell_h_def mul_cell_def unstore_def Let_def gate_eq)
  qed
qed

lemma frame_length: "frame n h h' \<Longrightarrow> length h' = length h"
  by (simp add: frame_def)

lemma mul_row_h_sim:
  assumes "length (heap hs) = n + 2"
  shows "case mul_row_h n (Suc n) d is hs of
           Inl (e, h', C') \<Rightarrow> mul_row d is (unstore n hs) = Inl (e, C') \<and> frame n (heap hs) h'
         | Inr hs' \<Rightarrow> mul_row d is (unstore n hs) = Inr (unstore n hs') \<and> frame n (heap hs) (heap hs')"
  using assms
proof (induction "is" arbitrary: hs)
  case Nil
  then show ?case by simp
next
  case (Cons i "is")
  show ?case
  proof (cases "mul_cell_h n (Suc n) d i hs")
    case (Inl err)
    then show ?thesis
      using mul_cell_h_sim [OF Cons.prems, of d i] by (simp split: prod.splits)
  next
    case (Inr hs1)
    have c: "mul_cell d i (unstore n hs) = Inr (unstore n hs1)" and f: "frame n (heap hs) (heap hs1)"
      using mul_cell_h_sim [OF Cons.prems, of d i] Inr by simp_all
    have l: "length (heap hs1) = n + 2"
      using frame_length [OF f] Cons.prems by simp
    show ?thesis
      using Cons.IH [OF l] Inr c f
      by (auto split: sum.splits prod.splits intro: frame_trans)
  qed
qed

lemma mul_diags_h_sim:
  assumes "length (heap hs) = n + 2"
  shows "case mul_diags_h n (Suc n) na nb ds hs of
           Inl (e, h', C') \<Rightarrow> mul_diags na nb ds (unstore n hs) = Inl (e, C') \<and> frame n (heap hs) h'
         | Inr hs' \<Rightarrow> mul_diags na nb ds (unstore n hs) = Inr (unstore n hs')
                        \<and> frame n (heap hs) (heap hs')"
  using assms
proof (induction ds arbitrary: hs)
  case Nil
  then show ?case by simp
next
  case (Cons d ds)
  show ?case
  proof (cases "mul_row_h n (Suc n) d [d + 1 - nb ..< min na (d + 1)] hs")
    case (Inl err)
    then show ?thesis
      using mul_row_h_sim [OF Cons.prems, of d "[d + 1 - nb ..< min na (d + 1)]"]
      by (simp split: prod.splits)
  next
    case (Inr hs1)
    have c: "mul_row d [d + 1 - nb ..< min na (d + 1)] (unstore n hs) = Inr (unstore n hs1)"
      and f: "frame n (heap hs) (heap hs1)"
      using mul_row_h_sim [OF Cons.prems, of d "[d + 1 - nb ..< min na (d + 1)]"] Inr by simp_all
    have l: "length (heap hs1) = n + 2"
      using frame_length [OF f] Cons.prems by simp
    show ?thesis
      using Cons.IH [OF l] Inr c f
      by (auto split: sum.splits prod.splits intro: frame_trans)
  qed
qed

text \<open>
  C10. Called with the arrays at the addresses \<open>pa\<close> and \<open>pb\<close> of a store, which may be
  the same array, \<open>multiplier\<close> leaves every array the store held before the call as it
  was, the two operand arrays among them, whether it returns or throws: the
  assignments go to the two copies, allocated at new addresses. The netlist and the
  result are those of \<open>multiplier\<close> on the contents of the two arrays.
\<close>

theorem multiplier_frame:
  assumes "pa < length h" and "pb < length h"
  shows "take (length h) (fst (multiplier_h h C pa pb)) = h
       \<and> fst (multiplier_h h C pa pb) ! pa = h ! pa
       \<and> fst (multiplier_h h C pa pb) ! pb = h ! pb
       \<and> snd (multiplier_h h C pa pb) = multiplier C (h ! pa) (h ! pb)"
proof -
  define n where "n = length h"
  define na where "na = length (h ! pa)"
  define nb where "nb = length (h ! pb)"
  define L where "L = na + nb - 1"
  define hs0 where "hs0 = \<lparr>heap = (h @ [h ! pa]) @ [(h @ [h ! pa]) ! pb], hnet = C,
                            hland = replicate L []\<rparr>"
  define st0 where "st0 = \<lparr>net = C, abits = h ! pa, bbits = h ! pb, land = replicate L []\<rparr>"
  have l0: "length (heap hs0) = n + 2" by (simp add: hs0_def n_def)
  have u0: "unstore n hs0 = st0"
    using assms by (simp add: unstore_def hs0_def st0_def n_def nth_append)
  have t0: "take n (heap hs0) = h" by (simp add: hs0_def n_def)
  have mh: "multiplier_h h C pa pb =
      (case mul_diags_h n (Suc n) na nb [0..<L] hs0 of
         Inl (e, h', C') \<Rightarrow> (h', C', Inl e)
       | Inr hs \<Rightarrow> (case compress (hnet hs) (hland hs) of
                      (C', outputs) \<Rightarrow> (heap hs, C', Inr outputs)))"
    unfolding multiplier_h_def Let_def n_def na_def nb_def L_def hs0_def
    by simp
  have mp: "multiplier C (h ! pa) (h ! pb) =
      (case mul_diags na nb [0..<L] st0 of
         Inl (e, C') \<Rightarrow> (C', Inl e)
       | Inr st \<Rightarrow> (case compress (net st) (land st) of (C', outputs) \<Rightarrow> (C', Inr outputs)))"
    unfolding multiplier_def Let_def na_def nb_def L_def st0_def
    by simp
  have sim: "case mul_diags_h n (Suc n) na nb [0..<L] hs0 of
           Inl (e, h', C') \<Rightarrow> mul_diags na nb [0..<L] st0 = Inl (e, C') \<and> frame n (heap hs0) h'
         | Inr hs' \<Rightarrow> mul_diags na nb [0..<L] st0 = Inr (unstore n hs')
                        \<and> frame n (heap hs0) (heap hs')"
    using mul_diags_h_sim [OF l0, of na nb "[0..<L]"] unfolding u0 .
  have main: "take n (fst (multiplier_h h C pa pb)) = h
       \<and> snd (multiplier_h h C pa pb) = multiplier C (h ! pa) (h ! pb)"
  proof (cases "mul_diags_h n (Suc n) na nb [0..<L] hs0")
    case (Inl err)
    obtain e h' C' where err: "err = (e, h', C')" by (cases err)
    have "mul_diags na nb [0..<L] st0 = Inl (e, C')" and "frame n (heap hs0) h'"
      using sim Inl err by simp_all
    then show ?thesis
      using Inl err t0 by (simp add: mh mp frame_def)
  next
    case (Inr hs')
    have "mul_diags na nb [0..<L] st0 = Inr (unstore n hs')" and "frame n (heap hs0) (heap hs')"
      using sim Inr by simp_all
    then show ?thesis
      using Inr t0 by (simp add: mh mp frame_def unstore_def case_prod_unfold)
  qed
  then have "take n (fst (multiplier_h h C pa pb)) ! pa = h ! pa"
    and "take n (fst (multiplier_h h C pa pb)) ! pb = h ! pb"
    by simp_all
  then show ?thesis using main assms by (simp add: n_def)
qed

theorem multiplier_frame_witness:
  "(0::nat) < length [[Some 0, Some (1::nat)]]
   \<and> fst (multiplier_h [[Some 0, Some 1]] [Gate ''a0'' [], Gate ''a1'' []] 0 0) ! 0
       = [Some 0, Some 1]"
  using multiplier_frame [of 0 "[[Some 0, Some 1]]" 0 "[Gate ''a0'' [], Gate ''a1'' []]"]
  by simp

end
